theory Spec2Isabelle
  imports Complex_Main "HOL-Library.Word" "HOL-Library.Monad_Syntax"
begin

unbundle bit_operations_syntax

section \<open>The histogram collaborator (histo.h, histo.cpp)\<close>

text \<open>
  \<^verbatim>\<open>class Histogram\<close> keeps its counters in \<^verbatim>\<open>unsigned int\<close> fields, modelled as
  32-bit words. The accumulator \<^verbatim>\<open>summation\<close> is a \<^verbatim>\<open>double\<close>; it is modelled as a real
  number, so rounding is outside the model. The two arrays of the class are lists:
  \<^verbatim>\<open>binVector\<close> has \<^verbatim>\<open>bins + 2\<close> cells, the trace arrays have \<^verbatim>\<open>OVERN_TRACE_COUNT\<close>.
  The field \<^verbatim>\<open>n\<close>, the number of data points, is \<open>n_data\<close>.
\<close>

type_synonym uint = "32 word"

definition OVERN_TRACE_COUNT :: nat where
  "OVERN_TRACE_COUNT = 10"

record histogram =
  overN :: "uint list"
  overValueN :: "uint list"
  overTSN :: "uint list"
  countsPerBin :: uint
  nBins :: uint
  minBin :: uint
  minData :: uint
  maxData :: uint
  maxFreq :: uint
  n_data :: uint
  summation :: real
  binVector :: "uint list"

text \<open>
  The division \<^verbatim>\<open>summation / int( n )\<close>. The result \<open>None\<close> records that the quotient was
  evaluated with a divisor equal to zero.
\<close>

definition double_div :: "real \<Rightarrow> int \<Rightarrow> real option" where
  "double_div x d = (if d = 0 then None else Some (x / real_of_int d))"

text \<open>
  \<^verbatim>\<open>Histogram::MeanValue\<close>: the test \<^verbatim>\<open>n > 0\<close> is on the unsigned field, the cast
  \<^verbatim>\<open>int( n )\<close> reads the same 32 bits as a signed number.
\<close>

definition MeanValue :: "histogram \<Rightarrow> real option" where
  "MeanValue h = (if 0 < n_data h then double_div (summation h) (sint (n_data h)) else Some 0)"

text \<open>
  The loop of \<^verbatim>\<open>Histogram::Add\<close> over the trace arrays, \<open>is\<close> being the indices still to
  visit: the first cell of \<^verbatim>\<open>overN\<close> that holds 0 takes the number of the data point, and the
  loop ends there. An index outside an array is undefined (\<open>None\<close>).
\<close>

fun capture_over ::
  "nat list \<Rightarrow> uint \<Rightarrow> 'a histogram_scheme \<Rightarrow> 'a histogram_scheme option" where
  "capture_over [] data h = Some h"
| "capture_over (i # is) data h =
     (if length (overN h) \<le> i then None
      else if overN h ! i = 0 then
        (if length (overValueN h) \<le> i \<or> length (overTSN h) \<le> i then None
         else Some (h\<lparr>overN := (overN h)[i := n_data h + 1],
                      overValueN := (overValueN h)[i := data],
                      overTSN := (overTSN h)[i := 0]\<rparr>))
      else capture_over is data h)"

text \<open>
  \<^verbatim>\<open>Histogram::Add\<close>, outside \<^verbatim>\<open>THE_TEST_BUILD\<close>. The division by \<^verbatim>\<open>countsPerBin\<close> is
  undefined for a divisor of 0, and so is an index outside \<^verbatim>\<open>binVector\<close>.
\<close>

definition Add :: "uint \<Rightarrow> 'a histogram_scheme \<Rightarrow> 'a histogram_scheme option" where
  "Add data h =
     do {
       bin \<leftarrow> (if minBin h \<le> data
                then (if countsPerBin h = 0 then None
                      else Some ((data - minBin h) div countsPerBin h + 1))
                else Some 0);
       (targetBin, h1) \<leftarrow>
         (if nBins h < bin
          then map_option (Pair (nBins h + 1)) (capture_over [0..<OVERN_TRACE_COUNT] data h)
          else Some (bin, h));
       if length (binVector h1) \<le> unat targetBin then None
       else
         let v = binVector h1 ! unat targetBin + 1;
             h2 = h1\<lparr>binVector := (binVector h1)[unat targetBin := v]\<rparr>;
             h3 = (if maxFreq h2 < v then h2\<lparr>maxFreq := v\<rparr> else h2);
             h4 = h3\<lparr>summation := summation h3 + real (unat data), n_data := n_data h3 + 1\<rparr>
         in Some (if data < minData h4 then h4\<lparr>minData := data\<rparr>
                  else if maxData h4 < data then h4\<lparr>maxData := data\<rparr>
                  else h4)
     }"

section \<open>The interval histogram (histospt.h, histospt.cpp) and the keyboard probe (kbhit.cpp)\<close>

text \<open>
  \<^verbatim>\<open>struct timeval\<close>: the two fields hold signed integers; they are modelled by their values.
  \<^verbatim>\<open>class TimeIntervalHistogram\<close> extends \<^verbatim>\<open>Histogram\<close>; of its fields the model has the three
  that \<^verbatim>\<open>tally\<close> uses, the others describe the display.
\<close>

record timeval =
  tv_sec :: int
  tv_usec :: int

record TimeIntervalHistogram = histogram +
  firstTime :: bool
  tvPrevTimeValue :: timeval
  tvNextTimeValue :: timeval

text \<open>
  What a call of \<^verbatim>\<open>gettimeofday\<close> does: it returns 0 and stores the time, or it returns a
  non-zero value, sets \<^verbatim>\<open>errno\<close> and stores nothing.
\<close>

datatype gettimeofday_result = Time timeval | Failed int

text \<open>The text that \<^verbatim>\<open>printf\<close> writes for \<^verbatim>\<open>%i\<close>.\<close>

function digits :: "nat \<Rightarrow> string" where
  "digits n =
     (if n < 10 then [''0123456789'' ! n] else digits (n div 10) @ [''0123456789'' ! (n mod 10)])"
  by pat_completeness auto
termination
  by (relation "measure id") auto

declare digits.simps [simp del]

definition show_int :: "int \<Rightarrow> string" where
  "show_int i = (if i < 0 then CHR ''-'' # digits (nat (- i)) else digits (nat i))"

text \<open>
  The line that \<^verbatim>\<open>tally\<close> writes when \<^verbatim>\<open>gettimeofday\<close> fails:
  \<^verbatim>\<open>sprintf( str, "gettimeofday failed: errno is %i", errno )\<close>, then
  \<^verbatim>\<open>printf( "%s\n", str )\<close>.
\<close>

definition gettimeofday_failed :: "int \<Rightarrow> string" where
  "gettimeofday_failed errno = ''gettimeofday failed: errno is '' @ show_int errno @ [CHR 0x0A]"

text \<open>Arithmetic on \<^verbatim>\<open>long\<close>: a result outside the 64 bits is undefined.\<close>

definition long_result :: "int \<Rightarrow> int option" where
  "long_result x = (if - (2 ^ 63) \<le> x \<and> x < 2 ^ 63 then Some x else None)"

text \<open>
  \<^verbatim>\<open>( tvNextTimeValue.tv_sec - tvPrevTimeValue.tv_sec ) * 1000000
     + tvNextTimeValue.tv_usec - tvPrevTimeValue.tv_usec\<close>
\<close>

definition uDelta :: "timeval \<Rightarrow> timeval \<Rightarrow> int option" where
  "uDelta prev next =
     do {
       d \<leftarrow> long_result (tv_sec next - tv_sec prev);
       m \<leftarrow> long_result (d * 1000000);
       a \<leftarrow> long_result (m + tv_usec next);
       long_result (a - tv_usec prev)
     }"

text \<open>
  \<^verbatim>\<open>TimeIntervalHistogram::tally\<close>, outside \<^verbatim>\<open>THE_TEST_BUILD\<close>. \<open>g\<close> is what the call of
  \<^verbatim>\<open>gettimeofday\<close> does, \<open>out\<close> is the text written to standard output so far.
\<close>

definition tally ::
  "gettimeofday_result \<Rightarrow> TimeIntervalHistogram \<Rightarrow> string
     \<Rightarrow> (TimeIntervalHistogram \<times> string) option" where
  "tally g t out =
     (if firstTime t then
        (case g of
           Time tv \<Rightarrow> Some (t\<lparr>tvPrevTimeValue := tv, firstTime := False\<rparr>, out)
         | Failed errno \<Rightarrow> Some (t\<lparr>firstTime := False\<rparr>, out @ gettimeofday_failed errno))
      else
        let (t1, out1) =
              (case g of
                 Time tv \<Rightarrow> (t\<lparr>tvNextTimeValue := tv\<rparr>, out)
               | Failed errno \<Rightarrow> (t, out @ gettimeofday_failed errno))
        in do {
             d \<leftarrow> uDelta (tvPrevTimeValue t1) (tvNextTimeValue t1);
             t2 \<leftarrow> Add (word_of_int d) t1;
             Some (t2\<lparr>tvPrevTimeValue := tvNextTimeValue t2\<rparr>, out1)
           })"

text \<open>
  What \<^verbatim>\<open>select\<close> hands back to \<^verbatim>\<open>kbhit\<close>: its return value, and whether descriptor 0 is
  set in \<^verbatim>\<open>read_fd\<close> afterwards.
\<close>

record select_result =
  returned :: int
  stdin_set :: bool

text \<open>\<^verbatim>\<open>kbhit\<close>; \<open>out\<close> is the text written to standard output so far.\<close>

definition kbhit :: "select_result \<Rightarrow> string \<Rightarrow> int \<times> string" where
  "kbhit s out =
     (if returned s = - 1 then (0, out)
      else if stdin_set s then (1, out)
      else (0, out))"

text \<open>An interval histogram of two bins of 500 counts, after its first tally.\<close>

definition interval_histogram :: TimeIntervalHistogram where
  "interval_histogram =
     \<lparr>overN = replicate 10 0, overValueN = replicate 10 0, overTSN = replicate 10 0,
      countsPerBin = 500, nBins = 2, minBin = 0, minData = 1000, maxData = 0, maxFreq = 0,
      n_data = 0, summation = 0, binVector = [0, 0, 0, 0],
      firstTime = False,
      tvPrevTimeValue = \<lparr>tv_sec = 100, tv_usec = 250\<rparr>,
      tvNextTimeValue = \<lparr>tv_sec = 100, tv_usec = 950\<rparr>\<rparr>"

section \<open>The coroutine kernel (mt.cpp)\<close>

text \<open>
  A \<^verbatim>\<open>long\<close> is a 64-bit word. A \<^verbatim>\<open>long *\<close> that points into the OS stack is an
  integer counted in longs (the byte address divided by 8), so that pointer arithmetic is
  integer arithmetic. The two builds of the source are told apart by \<open>platform\<close>:
  \<open>MacOS\<close> stands for the branch \<^verbatim>\<open>defined(__APPLE__) && defined(__MACH__)\<close> (System V
  AMD64), \<open>Cygwin\<close> for the branch \<^verbatim>\<open>defined(CYGWIN)\<close> (Windows x64).
\<close>

type_synonym long = "64 word"
type_synonym addr = int

datatype platform = MacOS | Cygwin

text \<open>What a build fixes: its platform and the address of the function \<^verbatim>\<open>cleanup\<close>.\<close>

record build =
  abi :: platform
  cleanup_fn :: long

definition CSA_SIZE :: nat where
  "CSA_SIZE = 90000"

definition EXTRA_STACK :: int where
  "EXTRA_STACK = 60"

definition FILLER_VALUE :: long where
  "FILLER_VALUE = 0xffffffffffffffff"

definition SHADOW_SPACE_VALUE :: long where
  "SHADOW_SPACE_VALUE = 0x5555555555555555"

definition SIZE_MASK :: long where
  "SIZE_MASK = 0x00ffffffffffffff"

definition INT_MAX :: int where
  "INT_MAX = 2147483647"


fun IN_REGISTERS_COUNT :: "platform \<Rightarrow> int" where
  "IN_REGISTERS_COUNT MacOS = 6"
| "IN_REGISTERS_COUNT Cygwin = 4"

fun MAGIC_OFFSET :: "platform \<Rightarrow> int" where
  "MAGIC_OFFSET MacOS = 0x68"
| "MAGIC_OFFSET Cygwin = 0x98"

fun CLEANUP_OFFSET :: "platform \<Rightarrow> long" where
  "CLEANUP_OFFSET MacOS = 9"
| "CLEANUP_OFFSET Cygwin = 13"


definition CLEANUP_STACK_ADJUST :: int where
  "CLEANUP_STACK_ADJUST = 0x38"

definition COBEGIN_STACK_ADJUST :: int where
  "COBEGIN_STACK_ADJUST = 0x58"

fun LONG_COUNT :: "platform \<Rightarrow> int" where
  "LONG_COUNT MacOS = 2"
| "LONG_COUNT Cygwin = 4"

text \<open>
  The registers that the prologue of \<^verbatim>\<open>popCoroutine\<close>, \<^verbatim>\<open>cleanup\<close>, \<^verbatim>\<open>cobegin\<close> and
  \<^verbatim>\<open>coresume\<close> saves besides rbp: rbx, and on Cygwin also rdi and rsi (the clobber lists of
  the \<^verbatim>\<open>nop\<close> statements).
\<close>

fun saved_regs :: "platform \<Rightarrow> int" where
  "saved_regs MacOS = 1"
| "saved_regs Cygwin = 3"

definition long_of_ptr :: "addr \<Rightarrow> long" where
  "long_of_ptr a = word_of_int (8 * a)"

definition ptr_of_long :: "long \<Rightarrow> addr" where
  "ptr_of_long w = uint w div 8"

text \<open>
  The module variables. The array \<^verbatim>\<open>csa\<close> is a function from indices to longs and
  \<^verbatim>\<open>csavail\<close> is the index \<^verbatim>\<open>csavail - csa\<close>; a store or a load outside
  \<^verbatim>\<open>csa[0 .. CSA_SIZE)\<close> is undefined behaviour, which every operation below returns as
  \<open>None\<close>. \<open>v_size\<close> and \<open>v_RSP\<close> are the variables \<^verbatim>\<open>_size\<close> and \<^verbatim>\<open>_RSP\<close>.
\<close>

record kernel =
  csa :: "nat \<Rightarrow> long"
  csavail :: nat
  coroutineCount :: int
  base :: addr
  baseMinusSize :: addr
  v_size :: long
  v_RSP :: addr
  COBEGIN_EPILOG :: addr
  coRBP :: long

text \<open>
  The processor state the inline assembly reads and writes: the stack and frame pointers,
  the six argument registers, the address \<open>rip\<close> at which control continues, and the memory
  that holds the OS stack.
\<close>

record cpu =
  rsp :: addr
  rbp :: addr
  rip :: long
  rdi :: long
  rsi :: long
  rdx :: long
  rcx :: long
  r8 :: long
  r9 :: long
  mem :: "addr \<Rightarrow> long"

text \<open>How a kernel function hands control on.\<close>

datatype outcome =
  Returns kernel cpu
| Switches kernel cpu

subsection \<open>Storing into the CSA\<close>

text \<open>\<^verbatim>\<open>*csavail++ = v\<close>\<close>

definition push :: "long \<Rightarrow> kernel \<Rightarrow> kernel option" where
  "push v k =
     (if csavail k < CSA_SIZE
      then Some (k\<lparr>csa := (csa k)(csavail k := v), csavail := Suc (csavail k)\<rparr>)
      else None)"

fun push_all :: "long list \<Rightarrow> kernel \<Rightarrow> kernel option" where
  "push_all [] k = Some k"
| "push_all (v # vs) k = (case push v k of None \<Rightarrow> None | Some k' \<Rightarrow> push_all vs k')"

text \<open>
  The variable argument list is the sequence of its 8-byte slots; \<^verbatim>\<open>va_arg\<close> takes the
  next one, and reading past the last argument is undefined.
\<close>

definition va_arg :: "long list \<Rightarrow> (long \<times> long list) option" where
  "va_arg va = (case va of [] \<Rightarrow> None | x # xs \<Rightarrow> Some (x, xs))"

text \<open>\<^verbatim>\<open>for ( int i = 0; i < argCount; i++ ) *csavail++ = (long)( va_arg( arg, long ) )\<close>\<close>

fun push_args :: "nat \<Rightarrow> long list \<Rightarrow> kernel \<Rightarrow> (kernel \<times> long list) option" where
  "push_args 0 va k = Some (k, va)"
| "push_args (Suc i) va k =
     (case va_arg va of
        None \<Rightarrow> None
      | Some (x, va') \<Rightarrow>
          (case push x k of None \<Rightarrow> None | Some k' \<Rightarrow> push_args i va' k'))"

text \<open>\<^verbatim>\<open>++coroutineCount\<close> on an \<^verbatim>\<open>int\<close>; the overflow is undefined.\<close>

definition incr_count :: "kernel \<Rightarrow> kernel option" where
  "incr_count k =
     (if coroutineCount k < INT_MAX
      then Some (k\<lparr>coroutineCount := coroutineCount k + 1\<rparr>)
      else None)"

text \<open>
  The size word of a coroutine that has not run yet:
  \<^verbatim>\<open>coroutineSize = argCount + fillerCount + (sizeof(long) * LONG_COUNT + sizeof(COROUTINE) * 2) / sizeof(long)\<close>,
  marked in its high-order byte with \<^verbatim>\<open>(uint8_t)(0x80 | argCount)\<close>.
\<close>

definition marked_size :: "build \<Rightarrow> int \<Rightarrow> int \<Rightarrow> long" where
  "marked_size b argCount fillerCount =
     (let coroutineSize =
            (word_of_int (argCount + fillerCount) + word_of_int (LONG_COUNT (abi b) + 2) :: long);
          mark = (0x80 OR word_of_int argCount :: 8 word)
      in coroutineSize OR push_bit 56 (ucast mark))"

text \<open>
  The second half of a spawn, which \<^verbatim>\<open>invoke\<close> and the loop of \<^verbatim>\<open>cobegin\<close> spell out
  alike: the arguments, the filler that keeps a 16-byte boundary, the size word marked in its
  high-order byte, and the count. \<open>argCount\<close> is the value of the variable \<^verbatim>\<open>argCount\<close>,
  \<open>fillerCount\<close> the count of the shadow-space words already stored.
\<close>

definition store_arguments ::
  "build \<Rightarrow> int \<Rightarrow> int \<Rightarrow> long list \<Rightarrow> kernel \<Rightarrow> (kernel \<times> long list) option" where
  "store_arguments b argCount fillerCount va k = do {
     (k1, va1, fillerCount1) \<leftarrow>
       (if argCount > 0 then do {
          (k', va') \<leftarrow> push_args (nat argCount) va k;
          if argCount mod 2 = 0 then Some (k', va', fillerCount)
          else do {
            k'' \<leftarrow> push FILLER_VALUE k';
            Some (k'', va', fillerCount + 1)
          }
        }
        else if argCount = 0 then do {
          k' \<leftarrow> push FILLER_VALUE k;
          k'' \<leftarrow> push FILLER_VALUE k';
          Some (k'', va, fillerCount + 2)
        }
        else Some (k, va, fillerCount));
     k2 \<leftarrow> push (marked_size b argCount fillerCount1) k1;
     k3 \<leftarrow> incr_count k2;
     Some (k3, va1)
   }"

text \<open>\<^verbatim>\<open>invoke( coroutine, argCount, ... )\<close>; \<open>va\<close> holds the arguments after \<^verbatim>\<open>argCount\<close>.\<close>

definition invoke :: "build \<Rightarrow> long \<Rightarrow> int \<Rightarrow> long list \<Rightarrow> kernel \<Rightarrow> kernel option" where
  "invoke b coroutine argCount va k0 = do {
     k1 \<leftarrow> push 0 k0;
     k2 \<leftarrow> (if abi b = Cygwin then push_all [0, 0] k1 else Some k1);
     k3 \<leftarrow> push (long_of_ptr (base k2)) k2;
     k4 \<leftarrow> push coroutine k3;
     k5 \<leftarrow> push (cleanup_fn b + CLEANUP_OFFSET (abi b)) k4;
     k6 \<leftarrow> (if abi b = Cygwin then push_all (replicate 4 SHADOW_SPACE_VALUE) k5 else Some k5);
     (k7, va') \<leftarrow> store_arguments b argCount (if abi b = Cygwin then 4 else 0) va k6;
     Some k7
   }"

text \<open>
  One turn of the loop \<^verbatim>\<open>while ( n-- )\<close> of \<^verbatim>\<open>cobegin\<close>. The argument count is read as an
  \<^verbatim>\<open>int\<close> and kept in an \<^verbatim>\<open>int8_t\<close>.
\<close>

definition cobegin_entry :: "build \<Rightarrow> long list \<Rightarrow> kernel \<Rightarrow> (kernel \<times> long list) option" where
  "cobegin_entry b va k0 = do {
     k1 \<leftarrow> push 0 k0;
     k2 \<leftarrow> (if abi b = Cygwin then push_all [0, 0] k1 else Some k1);
     k3 \<leftarrow> push (long_of_ptr (base k2)) k2;
     (coroutine, va1) \<leftarrow> va_arg va;
     k4 \<leftarrow> push coroutine k3;
     k5 \<leftarrow> push (cleanup_fn b + CLEANUP_OFFSET (abi b)) k4;
     k6 \<leftarrow> (if abi b = Cygwin then push_all (replicate 4 SHADOW_SPACE_VALUE) k5 else Some k5);
     (w, va2) \<leftarrow> va_arg va1;
     let argCount = sint (ucast w :: 8 word);
     store_arguments b argCount (if abi b = Cygwin then 4 else 0) va2 k6
   }"

subsection \<open>Restoring a coroutine\<close>

text \<open>
  \<^verbatim>\<open>memcpy\<close> and \<^verbatim>\<open>memmove\<close> of \<open>cnt\<close> longs from \<^verbatim>\<open>csa + i\<close> to the stack address
  \<open>dst\<close>.
\<close>

definition copy_to_stack ::
  "(addr \<Rightarrow> long) \<Rightarrow> addr \<Rightarrow> (nat \<Rightarrow> long) \<Rightarrow> int \<Rightarrow> int \<Rightarrow> (addr \<Rightarrow> long)" where
  "copy_to_stack m dst a i cnt =
     (\<lambda>x. if dst \<le> x \<and> x < dst + cnt then a (nat (i + (x - dst))) else m x)"

text \<open>
  The \<^verbatim>\<open>switch ( mark )\<close> of \<^verbatim>\<open>popCoroutine\<close>. Every case loads one register from
  \<^verbatim>\<open>*p\<close>, decrements \<^verbatim>\<open>p\<close> and falls through to the next case.
\<close>

definition mac_case1 :: "(nat \<Rightarrow> long) \<Rightarrow> int \<Rightarrow> cpu \<Rightarrow> cpu" where
  "mac_case1 a p c = c\<lparr>rdi := a (nat p)\<rparr>"

definition mac_case2 :: "(nat \<Rightarrow> long) \<Rightarrow> int \<Rightarrow> cpu \<Rightarrow> cpu" where
  "mac_case2 a p c = mac_case1 a (p - 1) (c\<lparr>rsi := a (nat p)\<rparr>)"

definition mac_case3 :: "(nat \<Rightarrow> long) \<Rightarrow> int \<Rightarrow> cpu \<Rightarrow> cpu" where
  "mac_case3 a p c = mac_case2 a (p - 1) (c\<lparr>rdx := a (nat p)\<rparr>)"

definition mac_case4 :: "(nat \<Rightarrow> long) \<Rightarrow> int \<Rightarrow> cpu \<Rightarrow> cpu" where
  "mac_case4 a p c = mac_case3 a (p - 1) (c\<lparr>rcx := a (nat p)\<rparr>)"

definition mac_case5 :: "(nat \<Rightarrow> long) \<Rightarrow> int \<Rightarrow> cpu \<Rightarrow> cpu" where
  "mac_case5 a p c = mac_case4 a (p - 1) (c\<lparr>r8 := a (nat p)\<rparr>)"

definition mac_case6 :: "(nat \<Rightarrow> long) \<Rightarrow> int \<Rightarrow> cpu \<Rightarrow> cpu" where
  "mac_case6 a p c = mac_case5 a (p - 1) (c\<lparr>r9 := a (nat p)\<rparr>)"

definition cyg_case1 :: "(nat \<Rightarrow> long) \<Rightarrow> int \<Rightarrow> cpu \<Rightarrow> cpu" where
  "cyg_case1 a p c = c\<lparr>rcx := a (nat p)\<rparr>"

definition cyg_case2 :: "(nat \<Rightarrow> long) \<Rightarrow> int \<Rightarrow> cpu \<Rightarrow> cpu" where
  "cyg_case2 a p c = cyg_case1 a (p - 1) (c\<lparr>rdx := a (nat p)\<rparr>)"

definition cyg_case3 :: "(nat \<Rightarrow> long) \<Rightarrow> int \<Rightarrow> cpu \<Rightarrow> cpu" where
  "cyg_case3 a p c = cyg_case2 a (p - 1) (c\<lparr>r8 := a (nat p)\<rparr>)"

definition cyg_case4 :: "(nat \<Rightarrow> long) \<Rightarrow> int \<Rightarrow> cpu \<Rightarrow> cpu" where
  "cyg_case4 a p c = cyg_case3 a (p - 1) (c\<lparr>r9 := a (nat p)\<rparr>)"

fun switch_mark :: "platform \<Rightarrow> int \<Rightarrow> (nat \<Rightarrow> long) \<Rightarrow> int \<Rightarrow> cpu \<Rightarrow> cpu" where
  "switch_mark MacOS mark a p c =
     (if mark = 6 then mac_case6 a p c
      else if mark = 5 then mac_case5 a p c
      else if mark = 4 then mac_case4 a p c
      else if mark = 3 then mac_case3 a p c
      else if mark = 2 then mac_case2 a p c
      else if mark = 1 then mac_case1 a p c
      else c)"
| "switch_mark Cygwin mark a p c =
     (if mark = 4 then cyg_case4 a p c
      else if mark = 3 then cyg_case3 a p c
      else if mark = 2 then cyg_case2 a p c
      else if mark = 1 then cyg_case1 a p c
      else c)"

text \<open>
  \<^verbatim>\<open>popCoroutine\<close>, up to its last statement, which moves \<^verbatim>\<open>_RSP\<close> into rsp. The loads
  through \<^verbatim>\<open>p\<close> read \<^verbatim>\<open>csa\<close> from the index \<open>p2 - mark2 + 1\<close> upwards; below \<^verbatim>\<open>csa[0]\<close> they
  are undefined, as is moving \<^verbatim>\<open>csavail\<close> below \<^verbatim>\<open>csa\<close>.
\<close>

definition popCoroutine :: "build \<Rightarrow> kernel \<Rightarrow> cpu \<Rightarrow> (kernel \<times> cpu) option" where
  "popCoroutine b k c =
     (if csavail k = 0 then None
      else
        let top = csavail k - 1;
            d = csa k top;
            p = int top - 1;
            mark = (if d <s 0
                    then uint ((ucast (signed_drop_bit 56 d) :: 8 word) AND 0x7F) else 0);
            sz = (if d <s 0 then d AND SIZE_MASK else d)
        in if top < unat sz then None
           else
             let bms = base k - sint sz - 2;
                 avail = top - unat sz;
                 sp = bms - MAGIC_OFFSET (abi b) div 8;
                 m1 = copy_to_stack (mem c) bms (csa k) (int avail) (sint sz);
                 k' = k\<lparr>csavail := avail, baseMinusSize := bms, v_size := sz, v_RSP := sp\<rparr>
             in if mark > 0 then
                  let p1 = (if mark mod 2 \<noteq> 0 then p - 1 else p);
                      first_p = p1;
                      excessCount = mark - IN_REGISTERS_COUNT (abi b);
                      mark2 = (if mark > IN_REGISTERS_COUNT (abi b)
                               then IN_REGISTERS_COUNT (abi b) else mark);
                      p2 = (if mark > IN_REGISTERS_COUNT (abi b) then p1 - excessCount else p1);
                      m2 = (if excessCount > 0
                            then copy_to_stack m1
                                   (bms + (case abi b of MacOS \<Rightarrow> 4 | Cygwin \<Rightarrow> 6 + 4))
                                   (csa k) (first_p - excessCount + 1) excessCount
                            else m1)
                  in if p2 - mark2 + 1 < 0 then None
                     else Some (k', (switch_mark (abi b) mark2 (csa k) p2 (c\<lparr>mem := m2\<rparr>))
                                      \<lparr>rsp := sp\<rparr>)
                else Some (k', c\<lparr>rsp := sp, mem := m1\<rparr>))"

text \<open>
  What follows the last statement of \<^verbatim>\<open>popCoroutine\<close> is the epilogue that the compiler
  emits, described by the comments of the source: it moves the stack up by
  \<^verbatim>\<open>MAGIC_OFFSET\<close>, pops rbx (and rdi and rsi on Cygwin), pops rbp and returns. The \<^verbatim>\<open>ret\<close>
  instruction continues at the address on top of the stack.
\<close>

definition pop_rbp :: "cpu \<Rightarrow> cpu" where
  "pop_rbp c = c\<lparr>rbp := ptr_of_long (mem c (rsp c)), rsp := rsp c + 1\<rparr>"

definition ret :: "cpu \<Rightarrow> cpu" where
  "ret c = c\<lparr>rip := mem c (rsp c), rsp := rsp c + 1\<rparr>"

definition popCoroutine_epilogue :: "build \<Rightarrow> cpu \<Rightarrow> cpu" where
  "popCoroutine_epilogue b c =
     ret (pop_rbp (c\<lparr>rsp := rsp c + MAGIC_OFFSET (abi b) div 8 + saved_regs (abi b)\<rparr>))"

subsection \<open>The ring\<close>


text \<open>
  \<^verbatim>\<open>setBase\<close>: \<open>bp\<close> is the frame pointer inside \<^verbatim>\<open>setBase\<close>, which the \<^verbatim>\<open>movq\<close> reads.
\<close>

definition setBase :: "build \<Rightarrow> addr \<Rightarrow> cpu \<Rightarrow> kernel \<Rightarrow> kernel" where
  "setBase b bp c k =
     (case abi b of
        MacOS \<Rightarrow> k\<lparr>base := bp, coRBP := mem c bp\<rparr>
      | Cygwin \<Rightarrow> k\<lparr>base := bp\<rparr>)"

text \<open>Every turn of the loop of \<^verbatim>\<open>cobegin\<close> takes arguments off the list.\<close>

lemma va_arg_length: "va_arg va = Some (x, va') \<Longrightarrow> length va = Suc (length va')"
  by (cases va) (auto simp: va_arg_def)

lemma push_args_length: "push_args i va k = Some (k', va') \<Longrightarrow> length va' \<le> length va"
proof (induction i arbitrary: va k)
  case 0
  then show ?case by simp
next
  case (Suc i)
  then show ?case
    by (fastforce split: option.splits dest: va_arg_length)
qed

lemma store_arguments_length:
  "store_arguments b argCount fillerCount va k = Some (k', va') \<Longrightarrow> length va' \<le> length va"
  unfolding store_arguments_def
  by (auto simp: Let_def split: if_splits bind_splits dest: push_args_length)

lemma cobegin_entry_length:
  "cobegin_entry b va k = Some (k', va') \<Longrightarrow> length va' < length va"
  unfolding cobegin_entry_def
  by (auto simp: Let_def split: if_splits bind_splits
      dest!: store_arguments_length va_arg_length)

text \<open>
  The loop \<^verbatim>\<open>while ( n-- )\<close> of \<^verbatim>\<open>cobegin\<close>. With a negative \<open>n\<close> it goes on until
  the argument list is used up, where \<^verbatim>\<open>va_arg\<close> is undefined.
\<close>

function cobegin_loop ::
  "build \<Rightarrow> int \<Rightarrow> long list \<Rightarrow> kernel \<Rightarrow> (kernel \<times> long list) option" where
  "cobegin_loop b n va k =
     (if n = 0 then Some (k, va)
      else (case cobegin_entry b va k of
              None \<Rightarrow> None
            | Some (k', va') \<Rightarrow> cobegin_loop b (n - 1) va' k'))"
  by pat_completeness auto
termination
  by (relation "measure (\<lambda>(b, n, va, k). length va)") (auto dest: cobegin_entry_length)

declare cobegin_loop.simps [simp del]

text \<open>
  \<^verbatim>\<open>cobegin( n, ... )\<close>; \<open>va\<close> holds the arguments after \<open>n\<close>, \<open>bp\<close> is the frame pointer
  inside \<^verbatim>\<open>setBase\<close> and \<open>c\<close> the processor state inside \<^verbatim>\<open>cobegin\<close>. The variable
  \<^verbatim>\<open>COBEGIN_EPILOG\<close> and the two constants of its adjustment exist in the Cygwin build only.
\<close>

definition cobegin :: "build \<Rightarrow> int \<Rightarrow> long list \<Rightarrow> addr \<Rightarrow> kernel \<Rightarrow> cpu \<Rightarrow> outcome option" where
  "cobegin b n va bp k0 c =
     (let k1 = setBase b bp c k0;
          k2 = (case abi b of
                  Cygwin \<Rightarrow>
                    k1\<lparr>COBEGIN_EPILOG :=
                         rsp c + (COBEGIN_STACK_ADJUST - CLEANUP_STACK_ADJUST) div 8\<rparr>
                | MacOS \<Rightarrow> k1)
      in case cobegin_loop b n va k2 of
           None \<Rightarrow> None
         | Some (k3, va') \<Rightarrow>
             if coroutineCount k3 > 0 then
               (if csavail k3 = 0 then None
                else
                  let sz = csa k3 (csavail k3 - 1) AND SIZE_MASK;
                      r = rsp c - (sint sz + EXTRA_STACK)
                  in map_option (\<lambda>(k', c'). Switches k' c')
                       (popCoroutine b (k3\<lparr>v_size := sz, v_RSP := r\<rparr>) (c\<lparr>rsp := r\<rparr>)))
             else Some (Returns k3 c))"

text \<open>
  Moves inside the CSA and from the stack into it:
  \<^verbatim>\<open>memmove( csa + dst, csa + src, cnt * sizeof( long ) )\<close> and
  \<^verbatim>\<open>memmove( csa + dst, from, cnt * sizeof( long ) )\<close>.
\<close>

definition csa_move :: "(nat \<Rightarrow> long) \<Rightarrow> nat \<Rightarrow> nat \<Rightarrow> nat \<Rightarrow> (nat \<Rightarrow> long)" where
  "csa_move a dst src cnt = (\<lambda>i. if dst \<le> i \<and> i < dst + cnt then a (src + (i - dst)) else a i)"

definition csa_load :: "(nat \<Rightarrow> long) \<Rightarrow> nat \<Rightarrow> (addr \<Rightarrow> long) \<Rightarrow> addr \<Rightarrow> nat \<Rightarrow> (nat \<Rightarrow> long)" where
  "csa_load a dst m from cnt =
     (\<lambda>i. if dst \<le> i \<and> i < dst + cnt then m (from + int (i - dst)) else a i)"

text \<open>
  The first half of the body of \<^verbatim>\<open>coresume\<close>, down to \<^verbatim>\<open>csa[_size] = _size\<close>: it
  stores the coroutine that yields. \<open>rbp c\<close> is the frame pointer of \<^verbatim>\<open>coresume\<close> itself,
  \<open>yielder_BPX\<close> the pointer \<^verbatim>\<open>_BPX\<close> and \<open>yielder_size\<close> the value \<^verbatim>\<open>base - 2 - _BPX\<close>.
  A negative \<^verbatim>\<open>_size\<close> makes the byte count of the second \<^verbatim>\<open>memmove\<close> wrap around, and
  a move past the end of \<^verbatim>\<open>csa\<close> is out of bounds: both are undefined.
\<close>

definition yielder_BPX :: "build \<Rightarrow> cpu \<Rightarrow> addr" where
  "yielder_BPX b c = (case abi b of Cygwin \<Rightarrow> rbp c - (- 1) | MacOS \<Rightarrow> rbp c - 1)"

definition yielder_size :: "build \<Rightarrow> kernel \<Rightarrow> cpu \<Rightarrow> int" where
  "yielder_size b k c = base k - 2 - yielder_BPX b c"

definition save_yielder :: "build \<Rightarrow> kernel \<Rightarrow> cpu \<Rightarrow> kernel option" where
  "save_yielder b k c =
     (let BPX = yielder_BPX b c;
          sz = yielder_size b k c
      in if sz < 0 \<or> CSA_SIZE < csavail k + nat sz + 1 then None
         else
           let a1 = csa_move (csa k) (nat sz + 1) 0 (csavail k);
               avail = csavail k + nat sz + 1;
               a2 = csa_load a1 0 (mem c) BPX (nat sz);
               a3 = a2(nat sz := word_of_int sz)
           in Some (k\<lparr>csa := a3, csavail := avail, v_size := word_of_int sz\<rparr>))"

text \<open>
  \<^verbatim>\<open>coresume\<close>: with at most one coroutine it does nothing and returns to its caller;
  otherwise it stores the caller, moves the stack pointer out of the way and restores the
  coroutine on top of the CSA.
\<close>

definition coresume :: "build \<Rightarrow> kernel \<Rightarrow> cpu \<Rightarrow> outcome option" where
  "coresume b k c =
     (if coroutineCount k > 1 then
        (case save_yielder b k c of
           None \<Rightarrow> None
         | Some k1 \<Rightarrow>
             let sz = csa k1 (csavail k1 - 1) AND SIZE_MASK;
                 r = rsp c - (sint sz + EXTRA_STACK)
             in map_option (\<lambda>(k', c'). Switches k' c')
                  (popCoroutine b (k1\<lparr>v_size := sz, v_RSP := r\<rparr>) (c\<lparr>rsp := r\<rparr>)))
      else Some (Returns k c))"


subsection \<open>States to start from\<close>

text \<open>
  The module variables as the program starts: they have static storage, so they are zero,
  and \<^verbatim>\<open>csavail\<close> points to \<^verbatim>\<open>csa\<close>.
\<close>

definition kernel_init :: kernel where
  "kernel_init =
     \<lparr>csa = (\<lambda>i. 0), csavail = 0, coroutineCount = 0, base = 0, baseMinusSize = 0,
      v_size = 0, v_RSP = 0, COBEGIN_EPILOG = 0, coRBP = 0\<rparr>"

text \<open>A processor state with the stack pointer at \<open>sp\<close>, the frame pointer at \<open>fp\<close> and
  memory \<open>m\<close>.\<close>

definition cpu_at :: "addr \<Rightarrow> addr \<Rightarrow> (addr \<Rightarrow> long) \<Rightarrow> cpu" where
  "cpu_at sp fp m =
     \<lparr>rsp = sp, rbp = fp, rip = 0, rdi = 0, rsi = 0, rdx = 0, rcx = 0, r8 = 0, r9 = 0, mem = m\<rparr>"

definition macos_build :: build where
  "macos_build = \<lparr>abi = MacOS, cleanup_fn = 0x100000\<rparr>"

definition cygwin_build :: build where
  "cygwin_build = \<lparr>abi = Cygwin, cleanup_fn = 0x100000\<rparr>"

text \<open>A memory in which every cell holds its own address.\<close>

definition mem_addr :: "addr \<Rightarrow> long" where
  "mem_addr a = word_of_int a"

section \<open>Properties of the histogram\<close>

lemma sint_eq_0_iff: "sint (w :: uint) = 0 \<longleftrightarrow> w = 0"
  by (metis signed_eq_0_iff)

text \<open>
  C10. \<^verbatim>\<open>MeanValue\<close> never evaluates its division with a zero count: with no data
  point it returns 0.0 without dividing, and with at least one data point it returns the
  quotient of the summation by the count read as a signed integer, which is not zero.
\<close>

theorem MeanValue_never_divides_by_zero:
  "MeanValue h =
     (if n_data h = 0 then Some 0 else Some (summation h / real_of_int (sint (n_data h))))
   \<and> MeanValue h \<noteq> None
   \<and> (0 < n_data h) = (sint (n_data h) \<noteq> 0)"
  by (simp add: MeanValue_def double_div_def sint_eq_0_iff word_greater_zero_iff)

subsection \<open>Failures of select and gettimeofday\<close>

text \<open>The class keeps \<^verbatim>\<open>bins + 2\<close> cells and trace arrays of \<^verbatim>\<open>OVERN_TRACE_COUNT\<close> cells, and
  the bins have a width.\<close>

definition allocated :: "'a histogram_scheme \<Rightarrow> bool" where
  "allocated h \<longleftrightarrow>
     length (binVector h) = unat (nBins h) + 2
   \<and> OVERN_TRACE_COUNT \<le> length (overN h)
   \<and> OVERN_TRACE_COUNT \<le> length (overValueN h)
   \<and> OVERN_TRACE_COUNT \<le> length (overTSN h)
   \<and> countsPerBin h \<noteq> 0"

lemma capture_over_defined:
  assumes "\<forall>i \<in> set is. i < length (overN h) \<and> i < length (overValueN h) \<and> i < length (overTSN h)"
  shows "\<exists>h'. capture_over is data h = Some h' \<and> binVector h' = binVector h"
  using assms by (induction "is") auto

lemma capture_over_firstTime:
  fixes h :: TimeIntervalHistogram
  shows "capture_over is data h = Some h' \<Longrightarrow> firstTime h' = firstTime h"
  by (induction "is") (auto split: if_splits)

lemma Add_firstTime:
  fixes h :: TimeIntervalHistogram
  assumes "Add data h = Some h'"
  shows "firstTime h' = firstTime h"
proof -
  from assms have "firstTime h' = firstTime h
      \<or> (\<exists>h1. capture_over [0..<OVERN_TRACE_COUNT] data h = Some h1
             \<and> firstTime h' = firstTime h1)"
    by (auto simp: Add_def Let_def split: Option.bind_splits if_splits)
  then show ?thesis
    using capture_over_firstTime [of "[0..<OVERN_TRACE_COUNT]" data h] by auto
qed

lemma Add_defined:
  assumes "allocated h"
  shows "Add data h \<noteq> None"
proof -
  from assms have a: "length (binVector h) = unat (nBins h) + 2" "countsPerBin h \<noteq> 0"
    and "\<forall>i \<in> set [0..<OVERN_TRACE_COUNT].
      i < length (overN h) \<and> i < length (overValueN h) \<and> i < length (overTSN h)"
    by (auto simp: allocated_def)
  from capture_over_defined [OF this(3), of data] obtain h' where
    h': "capture_over [0..<OVERN_TRACE_COUNT] data h = Some h'" "binVector h' = binVector h"
    by blast
  define bin where
    "bin = (if minBin h \<le> data then (data - minBin h) div countsPerBin h + 1 else 0)"
  have b: "(if minBin h \<le> data
            then (if countsPerBin h = 0 then None
                  else Some ((data - minBin h) div countsPerBin h + 1))
            else Some 0) = Some bin"
    using a(2) by (simp add: bin_def)
  show ?thesis
  proof (cases "nBins h < bin")
    case True
    have "unat (nBins h + 1) \<le> unat (nBins h) + 1"
      by (simp add: unat_word_ariths)
    then have "\<not> length (binVector h') \<le> unat (nBins h + 1)"
      using a(1) h'(2) by simp
    with True h'(1) show ?thesis
      unfolding Add_def b by (simp add: Let_def)
  next
    case False
    then have "\<not> length (binVector h) \<le> unat bin"
      using a(1) by (simp add: word_less_nat_alt)
    with False show ?thesis
      unfolding Add_def b by (simp add: Let_def)
  qed
qed

lemma tally_failed:
  "tally (Failed e) t out =
     map_option (\<lambda>(t', out'). (t', out' @ gettimeofday_failed e))
       (tally (Time (if firstTime t then tvPrevTimeValue t else tvNextTimeValue t)) t out)"
  by (auto simp: tally_def split: Option.bind_split)

text \<open>
  C9: when \<^verbatim>\<open>select\<close> fails, \<^verbatim>\<open>kbhit\<close> returns 0 and writes nothing. When \<^verbatim>\<open>gettimeofday\<close>
  fails, \<^verbatim>\<open>tally\<close> writes a line to standard output and goes on as if the call had stored
  the time that the variable holds already: it does not stop the process, and with the
  histogram allocated and the interval within a \<^verbatim>\<open>long\<close> it adds the interval as usual.
\<close>

theorem soft_anomalies:
  "(returned s = - 1 \<longrightarrow> kbhit s out = (0, out))
   \<and> tally (Failed errno) t out =
       map_option (\<lambda>(t', out'). (t', out' @ gettimeofday_failed errno))
         (tally (Time (if firstTime t then tvPrevTimeValue t else tvNextTimeValue t)) t out)
   \<and> (firstTime t \<or> allocated t \<and> uDelta (tvPrevTimeValue t) (tvNextTimeValue t) \<noteq> None
        \<longrightarrow> (\<exists>t'. tally (Failed errno) t out = Some (t', out @ gettimeofday_failed errno)
                \<and> \<not> firstTime t'))"
proof (intro conjI impI)
  show "kbhit s out = (0, out)" if "returned s = - 1"
    using that by (simp add: kbhit_def)
  show "tally (Failed errno) t out =
       map_option (\<lambda>(t', out'). (t', out' @ gettimeofday_failed errno))
         (tally (Time (if firstTime t then tvPrevTimeValue t else tvNextTimeValue t)) t out)"
    by (rule tally_failed)
  show "\<exists>t'. tally (Failed errno) t out = Some (t', out @ gettimeofday_failed errno)
      \<and> \<not> firstTime t'"
    if "firstTime t \<or> allocated t \<and> uDelta (tvPrevTimeValue t) (tvNextTimeValue t) \<noteq> None"
  proof (cases "firstTime t")
    case True
    then show ?thesis
      by (simp add: tally_def)
  next
    case False
    with that obtain d where d: "uDelta (tvPrevTimeValue t) (tvNextTimeValue t) = Some d"
      and a: "allocated t"
      by auto
    from Add_defined [OF a, of "word_of_int d"] obtain t2 where
      t2: "Add (word_of_int d) t = Some t2"
      by auto
    then have "firstTime t2 = firstTime t"
      by (rule Add_firstTime)
    with False d t2 show ?thesis
      by (simp add: tally_def)
  qed
qed

theorem soft_anomalies_witness:
  "kbhit \<lparr>returned = - 1, stdin_set = True\<rparr> ''abc'' = (0, ''abc'')
   \<and> allocated interval_histogram
   \<and> uDelta (tvPrevTimeValue interval_histogram) (tvNextTimeValue interval_histogram) = Some 700
   \<and> (\<exists>t'. tally (Failed 22) interval_histogram ''abc''
          = Some (t', ''abc'' @ ''gettimeofday failed: errno is 22'' @ [CHR 0x0A])
        \<and> binVector t' = [0, 0, 1, 0] \<and> n_data t' = 1
        \<and> tvPrevTimeValue t' = \<lparr>tv_sec = 100, tv_usec = 950\<rparr>)"
proof -
  have a: "allocated interval_histogram"
    by (simp add: allocated_def interval_histogram_def OVERN_TRACE_COUNT_def)
  have u0: "uDelta \<lparr>tv_sec = 100, tv_usec = 250\<rparr> \<lparr>tv_sec = 100, tv_usec = 950\<rparr> = Some 700"
    by (simp add: uDelta_def long_result_def)
  then have u: "uDelta (tvPrevTimeValue interval_histogram)
      (tvNextTimeValue interval_histogram) = Some 700"
    by (simp add: interval_histogram_def)
  have g: "gettimeofday_failed 22 = ''gettimeofday failed: errno is 22'' @ [CHR 0x0A]"
    by (simp add: gettimeofday_failed_def show_int_def digits.simps)
  have t: "tally (Time (tvNextTimeValue interval_histogram)) interval_histogram ''abc''
      = Some (interval_histogram\<lparr>binVector := [0, 0, 1, 0], n_data := 1, summation := 700,
                maxFreq := 1, minData := 700,
                tvPrevTimeValue := \<lparr>tv_sec = 100, tv_usec = 950\<rparr>\<rparr>, ''abc'')"
    by (simp add: tally_def u0 Add_def interval_histogram_def Let_def)
  from soft_anomalies [of "\<lparr>returned = - 1, stdin_set = True\<rparr>" "''abc''" 22
      interval_histogram] a u g t
  show ?thesis
    by (auto simp: interval_histogram_def)
qed

text \<open>
  The claim as it stands fails for \<^verbatim>\<open>kbhit\<close>: when \<^verbatim>\<open>select\<close> returns -1 the function returns
  0 and standard output is as it was, nothing is logged.
\<close>

theorem kbhit_counterexample:
  "kbhit \<lparr>returned = - 1, stdin_set = False\<rparr> [] = (0, [])"
  by (simp add: kbhit_def)

section \<open>The stored part of the CSA and the images of a spawn\<close>

definition live :: "kernel \<Rightarrow> long list" where
  "live k = map (csa k) [0..<csavail k]"

definition csa_append :: "kernel \<Rightarrow> long list \<Rightarrow> kernel" where
  "csa_append k vs =
     k\<lparr>csa := (\<lambda>i. if csavail k \<le> i \<and> i < csavail k + length vs
                    then vs ! (i - csavail k) else csa k i),
       csavail := csavail k + length vs\<rparr>"

lemma length_live [simp]: "length (live k) = csavail k"
  by (simp add: live_def)

lemma live_nth: "i < csavail k \<Longrightarrow> live k ! i = csa k i"
  by (simp add: live_def)

lemma csa_append_Nil [simp]: "csa_append k [] = k"
  by (cases k) (auto simp: csa_append_def fun_eq_iff)

lemma csa_append_append: "csa_append (csa_append k xs) ys = csa_append k (xs @ ys)"
  by (cases k) (auto simp: csa_append_def fun_eq_iff nth_append)

lemma live_csa_append [simp]: "live (csa_append k vs) = live k @ vs"
  by (auto simp: live_def csa_append_def intro!: nth_equalityI simp: nth_append)

lemma csa_append_fields [simp]:
  "csavail (csa_append k vs) = csavail k + length vs"
  "coroutineCount (csa_append k vs) = coroutineCount k"
  "base (csa_append k vs) = base k"
  "baseMinusSize (csa_append k vs) = baseMinusSize k"
  "v_size (csa_append k vs) = v_size k"
  "v_RSP (csa_append k vs) = v_RSP k"
  "COBEGIN_EPILOG (csa_append k vs) = COBEGIN_EPILOG k"
  "coRBP (csa_append k vs) = coRBP k"
  by (simp_all add: csa_append_def)

lemma push_eq:
  "push v k = (if csavail k < CSA_SIZE then Some (csa_append k [v]) else None)"
  by (auto simp: push_def csa_append_def fun_eq_iff)

lemma push_all_eq:
  "push_all vs k =
     (if vs = [] \<or> csavail k + length vs \<le> CSA_SIZE then Some (csa_append k vs) else None)"
proof (induction vs arbitrary: k)
  case Nil
  then show ?case by simp
next
  case (Cons v vs)
  have "csa_append (csa_append k [v]) vs = csa_append k (v # vs)"
    by (simp add: csa_append_append)
  with Cons show ?case
    by (auto simp: push_eq)
qed

lemma push_args_eq:
  "push_args i va k =
     (if i = 0 \<or> i \<le> length va \<and> csavail k + i \<le> CSA_SIZE
      then Some (csa_append k (take i va), drop i va) else None)"
proof (induction i arbitrary: va k)
  case 0
  then show ?case by simp
next
  case (Suc i)
  show ?case
  proof (cases va)
    case Nil
    then show ?thesis by (simp add: va_arg_def)
  next
    case (Cons x xs)
    have "csa_append (csa_append k [x]) (take i xs) = csa_append k (x # take i xs)"
      by (simp add: csa_append_append)
    with Cons Suc show ?thesis
      by (auto simp: va_arg_def push_eq)
  qed
qed

definition filler_words :: "nat \<Rightarrow> nat" where
  "filler_words argc = (if argc = 0 then 2 else if odd argc then 1 else 0)"

definition image_header :: "build \<Rightarrow> addr \<Rightarrow> long \<Rightarrow> long list" where
  "image_header b bs e =
     (case abi b of
        MacOS \<Rightarrow> [0, long_of_ptr bs, e, cleanup_fn b + CLEANUP_OFFSET MacOS]
      | Cygwin \<Rightarrow> [0, 0, 0, long_of_ptr bs, e, cleanup_fn b + CLEANUP_OFFSET Cygwin]
                  @ replicate 4 SHADOW_SPACE_VALUE)"

definition virgin_image :: "build \<Rightarrow> addr \<Rightarrow> long \<Rightarrow> long list \<Rightarrow> long list" where
  "virgin_image b bs e args =
     image_header b bs e @ args @ replicate (filler_words (length args)) FILLER_VALUE"

definition virgin_descriptor :: "nat \<Rightarrow> int \<Rightarrow> long" where
  "virgin_descriptor len argc =
     word_of_nat len OR push_bit 56 (ucast (0x80 OR word_of_int argc :: 8 word))"

lemma length_image_header: "length (image_header b bs e) = nat (saved_regs (abi b) + 3) + (if abi b = Cygwin then 4 else 0)"
  by (cases "abi b") (simp_all add: image_header_def)

lemma length_virgin_image:
  "length (virgin_image b bs e args) =
     length (image_header b bs e) + length args + filler_words (length args)"
  by (simp add: virgin_image_def)

lemma incr_count_eq:
  "incr_count k = (if coroutineCount k < INT_MAX then Some (k\<lparr>coroutineCount := coroutineCount k + 1\<rparr>) else None)"
  by (simp add: incr_count_def)

lemma descriptor_eq:
  assumes "0 \<le> argc" "0 \<le> fc" "0 \<le> L"
  shows "(word_of_int (argc + fc) + word_of_int L :: long) OR push_bit 56 (ucast (0x80 OR word_of_int argc :: 8 word))
     = virgin_descriptor (nat L + nat argc + nat fc) argc"
proof -
  have "(word_of_nat (nat L + nat argc + nat fc) :: long) = word_of_int (argc + fc) + word_of_int L"
    using assms by (simp add: of_nat_nat)
  then show ?thesis
    by (simp only: virgin_descriptor_def)
qed

lemma marked_size_eq:
  assumes "0 \<le> argc" "0 \<le> fc"
  shows "marked_size b argc fc = virgin_descriptor (nat (LONG_COUNT (abi b) + 2) + nat argc + nat fc) argc"
proof -
  have "0 \<le> LONG_COUNT (abi b) + 2" by (cases "abi b") simp_all
  from descriptor_eq [OF assms this] show ?thesis
    by (simp only: marked_size_def Let_def)
qed

lemma push_bind:
  "Option.bind (push v k) f = (if csavail k < CSA_SIZE then f (csa_append k [v]) else None)"
  by (simp add: push_eq)

lemma store_arguments_eq:
  assumes "0 \<le> argc" "0 \<le> fc"
  shows "store_arguments b argc fc va k =
     (if nat argc \<le> length va \<and> csavail k + nat argc + filler_words (nat argc) + 1 \<le> CSA_SIZE
         \<and> coroutineCount k < INT_MAX
      then Some ((csa_append k (take (nat argc) va @ replicate (filler_words (nat argc)) FILLER_VALUE
                   @ [virgin_descriptor (nat (LONG_COUNT (abi b) + 2) + nat argc + (nat fc + filler_words (nat argc))) argc]))
                  \<lparr>coroutineCount := coroutineCount k + 1\<rparr>, drop (nat argc) va)
      else None)"
proof -
  have m: "marked_size b argc (fc + j) = virgin_descriptor (nat (LONG_COUNT (abi b) + 2) + nat argc + (nat fc + nat j)) argc"
    if "0 \<le> j" for j
    using marked_size_eq [OF assms(1), of "fc + j" b] assms(2) that by (simp add: nat_add_distrib)
  consider (zero) "argc = 0" | (even) "0 < argc" "argc mod 2 = 0" | (odd) "0 < argc" "argc mod 2 \<noteq> 0"
    using assms(1) by fastforce
  then show ?thesis
  proof cases
    case zero
    have f: "filler_words (nat argc) = 2" using zero by (simp add: filler_words_def)
    show ?thesis
      unfolding store_arguments_def f
      using zero m [of 2]
      by (auto simp: push_eq incr_count_eq csa_append_append numeral_2_eq_2)
  next
    case even
    then have f: "filler_words (nat argc) = 0"
      by (auto simp: filler_words_def even_nat_iff)
    show ?thesis
      unfolding store_arguments_def f
      using even m [of 0]
      by (auto simp: push_eq incr_count_eq csa_append_append push_args_eq)
  next
    case odd
    then have f: "filler_words (nat argc) = 1"
      by (auto simp: filler_words_def even_nat_iff)
    show ?thesis
      unfolding store_arguments_def f
      using odd m [of 1]
      by (auto simp: push_eq incr_count_eq csa_append_append push_args_eq)
  qed
qed


definition spawned :: "build \<Rightarrow> long \<Rightarrow> long list \<Rightarrow> int \<Rightarrow> kernel \<Rightarrow> kernel" where
  "spawned b e args argc k =
     (csa_append k (virgin_image b (base k) e args
                    @ [virgin_descriptor (length (virgin_image b (base k) e args)) argc]))
       \<lparr>coroutineCount := coroutineCount k + 1\<rparr>"

lemma invoke_eq:
  assumes "0 \<le> argc"
  shows "invoke b e argc va k =
     (if nat argc \<le> length va
         \<and> csavail k + length (virgin_image b (base k) e (take (nat argc) va)) + 1 \<le> CSA_SIZE
         \<and> coroutineCount k < INT_MAX
      then Some (spawned b e (take (nat argc) va) argc k) else None)"
proof (cases "abi b")
  case MacOS
  then show ?thesis
    unfolding invoke_def spawned_def
    by (auto simp: push_eq store_arguments_eq [OF assms] csa_append_append
        virgin_image_def image_header_def min_def eval_nat_numeral)
next
  case Cygwin
  then show ?thesis
    unfolding invoke_def spawned_def
    by (auto simp: push_eq push_all_eq store_arguments_eq [OF assms] csa_append_append
        virgin_image_def image_header_def min_def eval_nat_numeral)
qed


lemma cobegin_entry_eq:
  assumes "0 \<le> sint (ucast w :: 8 word)"
  shows "cobegin_entry b (e # w # rest) k =
     (let argc = sint (ucast w :: 8 word) in
      if nat argc \<le> length rest
         \<and> csavail k + length (virgin_image b (base k) e (take (nat argc) rest)) + 1 \<le> CSA_SIZE
         \<and> coroutineCount k < INT_MAX
      then Some (spawned b e (take (nat argc) rest) argc k, drop (nat argc) rest) else None)"
proof (cases "abi b")
  case MacOS
  then show ?thesis
    unfolding cobegin_entry_def spawned_def
    by (auto simp: push_eq store_arguments_eq [OF assms] csa_append_append va_arg_def
        virgin_image_def image_header_def min_def eval_nat_numeral Let_def)
next
  case Cygwin
  then show ?thesis
    unfolding cobegin_entry_def spawned_def
    by (auto simp: push_eq push_all_eq store_arguments_eq [OF assms] csa_append_append va_arg_def
        virgin_image_def image_header_def min_def eval_nat_numeral Let_def)
qed

lemma int8_of_count: "n \<le> 127 \<Longrightarrow> sint (ucast (word_of_nat n :: long) :: 8 word) = int n"
proof -
  assume n: "n \<le> 127"
  have "take_bit 64 n = n"
    using n by (intro take_bit_nat_eq_self) simp
  then have "(ucast (word_of_nat n :: long) :: 8 word) = word_of_nat n"
    by (simp add: unsigned_of_nat)
  moreover have "sint (word_of_nat n :: 8 word) = int n"
    using n by (simp add: sint_uint signed_take_bit_int_eq_self take_bit_int_eq_self
        unsigned_of_nat take_bit_nat_eq_self)
  ultimately show ?thesis by simp
qed

subsection \<open>Reading a size word back\<close>

lemma SIZE_MASK_mask: "SIZE_MASK = mask 56"
  by (simp add: SIZE_MASK_def mask_eq_exp_minus_1)

lemma mark_bit: "(0x80 :: 8 word) = 2 ^ 7"
  by simp

lemma small_nat_bits: "S < 2 ^ 56 \<Longrightarrow> bit S n \<Longrightarrow> n < 56" for S :: nat
proof (rule ccontr)
  assume a: "S < 2 ^ 56" "bit S n" "\<not> n < 56"
  then have "S < 2 ^ n"
    by (meson less_le_trans not_le one_le_numeral power_increasing)
  with a(2) show False
    by (simp add: bit_iff_odd)
qed

lemma bit_mark: "bit (128 :: int) n = (n = 7)"
  using bit_exp_iff [of 7 n, where ?'a = int] by auto


lemma virgin_descriptor_size:
  assumes "S < 2 ^ 56"
  shows "virgin_descriptor S a AND SIZE_MASK = word_of_nat S"
  unfolding virgin_descriptor_def SIZE_MASK_mask
  by (rule bit_word_eqI) (auto simp: bit_simps dest: small_nat_bits [OF assms])

lemma virgin_descriptor_negative: "virgin_descriptor S a <s 0"
proof -
  have "bit (virgin_descriptor S a) (LENGTH(64) - Suc 0)"
    unfolding virgin_descriptor_def mark_bit
    by (simp add: bit_simps)
  then show ?thesis
    unfolding bit_last_iff by (simp add: word_sless_alt)
qed

lemma virgin_descriptor_mark:
  assumes "S < 2 ^ 56"
  shows "(ucast (signed_drop_bit 56 (virgin_descriptor S a)) :: 8 word) AND 0x7F = word_of_int a AND 0x7F"
proof -
  have m: "(0x7F :: 8 word) = mask 7" by (simp add: mask_eq_exp_minus_1)
  show ?thesis
    unfolding virgin_descriptor_def m
    by (rule bit_word_eqI) (auto simp: bit_simps bit_mark dest: small_nat_bits [OF assms])
qed

lemma mark_value: "0 \<le> a \<Longrightarrow> a \<le> 127 \<Longrightarrow> uint ((word_of_int a :: 8 word) AND 0x7F) = a"
proof -
  assume a: "0 \<le> a" "a \<le> 127"
  have m: "(0x7F :: 8 word) = mask 7" by (simp add: mask_eq_exp_minus_1)
  have "take_bit 7 a = a" using a by (simp add: take_bit_int_eq_self)
  then show ?thesis
    unfolding m
    by (simp add: uint_word_of_int_eq take_bit_eq_mask [symmetric] unsigned_take_bit_eq  min_def flip: take_bit_eq_mask)
qed

lemma virgin_descriptor_high:
  assumes "S < 2 ^ 56"
  shows "drop_bit 56 (virgin_descriptor S a) = ucast (0x80 OR word_of_int a :: 8 word)"
  unfolding virgin_descriptor_def
  by (rule bit_word_eqI) (auto simp: bit_simps dest: small_nat_bits [OF assms])

lemma nat_bits_below: "S < 2 ^ m \<Longrightarrow> bit S n \<Longrightarrow> n < m" for S :: nat
proof (rule ccontr)
  assume a: "S < 2 ^ m" "bit S n" "\<not> n < m"
  then have "S < 2 ^ n"
    by (meson less_le_trans not_le one_le_numeral power_increasing)
  with a(2) show False
    by (simp add: bit_iff_odd)
qed

lemma mark_byte_count:
  assumes "n \<le> 127"
  shows "(ucast (0x80 OR word_of_nat n :: 8 word) :: long) = 0x80 OR word_of_nat n"
proof -
  have b: "i < 7" if "bit n i" for i
    using nat_bits_below [of n 7 i] assms that by simp
  show ?thesis
    by (intro bit_word_eqI) (auto simp: bit_simps bit_mark dest: b)
qed

lemma live_count_update [simp]: "live (k\<lparr>coroutineCount := x\<rparr>) = live k"
  by (simp add: live_def)


lemma CSA_SIZE_small: "n \<le> CSA_SIZE \<Longrightarrow> n < 2 ^ 56"
  by (simp add: CSA_SIZE_def)

subsection \<open>What a yield stores\<close>

text \<open>The words of the stack that \<^verbatim>\<open>coresume\<close> copies: from \<^verbatim>\<open>_BPX\<close> up to
  \<^verbatim>\<open>base - 2\<close>.\<close>

definition yielder_frame :: "build \<Rightarrow> kernel \<Rightarrow> cpu \<Rightarrow> long list" where
  "yielder_frame b k c =
     map (\<lambda>i. mem c (yielder_BPX b c + int i)) [0..<nat (base k - 2 - yielder_BPX b c)]"

lemma length_yielder_frame [simp]:
  "length (yielder_frame b k c) = nat (yielder_size b k c)"
  by (simp add: yielder_frame_def yielder_size_def)

lemma save_yielder_eq:
  assumes "save_yielder b k c = Some k1"
  shows "0 \<le> yielder_size b k c"
    and "live k1 = yielder_frame b k c @ [word_of_int (yielder_size b k c)] @ live k"
    and "coroutineCount k1 = coroutineCount k" and "base k1 = base k"
    and "COBEGIN_EPILOG k1 = COBEGIN_EPILOG k" and "coRBP k1 = coRBP k"
proof -
  let ?n = "nat (yielder_size b k c)"
  from assms have sz: "0 \<le> yielder_size b k c" and room: "csavail k + ?n + 1 \<le> CSA_SIZE"
    and k1: "k1 = k\<lparr>csa := (csa_load (csa_move (csa k) (?n + 1) 0 (csavail k)) 0 (mem c)
                                (yielder_BPX b c) ?n)(?n := word_of_int (yielder_size b k c)),
                   csavail := csavail k + ?n + 1, v_size := word_of_int (yielder_size b k c)\<rparr>"
    by (auto simp: save_yielder_def Let_def split: if_splits)
  show "0 \<le> yielder_size b k c" by (rule sz)
  show "coroutineCount k1 = coroutineCount k" "base k1 = base k"
    "COBEGIN_EPILOG k1 = COBEGIN_EPILOG k" "coRBP k1 = coRBP k"
    by (simp_all add: k1)
  show "live k1 = yielder_frame b k c @ [word_of_int (yielder_size b k c)] @ live k"
  proof (rule nth_equalityI)
    show "length (live k1) = length (yielder_frame b k c @ [word_of_int (yielder_size b k c)] @ live k)"
      by (simp add: k1)
  next
    fix i
    assume "i < length (live k1)"
    then have i: "i < csavail k + ?n + 1"
      by (simp add: k1)
    consider "i < ?n" | "i = ?n" | "?n < i"
      by linarith
    then show "live k1 ! i = (yielder_frame b k c @ [word_of_int (yielder_size b k c)] @ live k) ! i"
    proof cases
      case 1
      then show ?thesis
        using i by (simp add: live_def k1 nth_append csa_load_def yielder_frame_def yielder_size_def)
    next
      case 2
      then show ?thesis
        using i by (simp add: live_def k1 nth_append)
    next
      case 3
      then have j: "i - Suc ?n < csavail k" and e: "i - ?n = Suc (i - Suc ?n)"
        using i by linarith+
      have "live k1 ! i = csa k1 i"
        using i by (intro live_nth) (simp add: k1)
      also have "\<dots> = csa k (i - Suc ?n)"
        using 3 i by (simp add: k1 csa_load_def csa_move_def)
      also have "\<dots> = live k ! (i - Suc ?n)"
        using j by (simp add: live_nth)
      finally show ?thesis
        using 3 e by (simp add: nth_append)
    qed
  qed
qed

subsection \<open>The images stored in the CSA\<close>

text \<open>
  The CSA is read from \<^verbatim>\<open>csavail\<close> downwards, as \<^verbatim>\<open>popCoroutine\<close> reads it: a size
  word, whose count is taken as \<^verbatim>\<open>popCoroutine\<close> takes it, and below it that many words
  of image. \<open>images\<close> lists the stored coroutines from the top of the CSA to its bottom, each
  with its size word; it is \<open>None\<close> when the size words do not tile the stored part.
\<close>

definition desc_size :: "long \<Rightarrow> long" where
  "desc_size d = (if d <s 0 then d AND SIZE_MASK else d)"

function parse_down :: "long list \<Rightarrow> (long \<times> long list) list option" where
  "parse_down [] = Some []"
| "parse_down (d # ws) =
     (if unat (desc_size d) \<le> length ws
      then map_option (Cons (d, rev (take (unat (desc_size d)) ws)))
             (parse_down (drop (unat (desc_size d)) ws))
      else None)"
  by pat_completeness auto
termination
  by (relation "measure length") auto

definition images :: "kernel \<Rightarrow> (long \<times> long list) list option" where
  "images k = parse_down (rev (live k))"

lemma parse_down_top:
  assumes "unat (desc_size d) = length img"
  shows "parse_down (rev (xs @ img @ [d])) = map_option (Cons (d, img)) (parse_down (rev xs))"
  using assms by simp

lemma parse_down_bottom:
  assumes "parse_down ys = Some q" and "unat (desc_size d) = length img"
  shows "parse_down (ys @ d # rev img) = Some (q @ [(d, img)])"
  using assms
proof (induction ys arbitrary: q rule: parse_down.induct)
  case 1
  then show ?case by simp
next
  case (2 d' ws)
  then show ?case
    by (auto split: if_splits)
qed

lemma parse_down_sum:
  "parse_down ys = Some q \<Longrightarrow> (\<Sum>(d, img)\<leftarrow>q. length img + 1) = length ys"
proof (induction ys arbitrary: q rule: parse_down.induct)
  case 1
  then show ?case by simp
next
  case (2 d ws)
  then show ?case
    by (auto split: if_splits)
qed

lemma parse_down_sizes:
  "parse_down ys = Some q \<Longrightarrow> (d, img) \<in> set q \<Longrightarrow> unat (desc_size d) = length img"
proof (induction ys arbitrary: q rule: parse_down.induct)
  case 1
  then show ?case by simp
next
  case (2 d' ws)
  then show ?case
    by (auto split: if_splits)
qed

lemma popCoroutine_kernel:
  assumes "popCoroutine b k c = Some (k', c')"
  shows "csavail k \<noteq> 0"
    and "unat (desc_size (csa k (csavail k - 1))) \<le> csavail k - 1"
    and "k' = k\<lparr>csavail := csavail k - 1 - unat (desc_size (csa k (csavail k - 1))),
                 baseMinusSize := base k - sint (desc_size (csa k (csavail k - 1))) - 2,
                 v_size := desc_size (csa k (csavail k - 1)),
                 v_RSP := base k - sint (desc_size (csa k (csavail k - 1))) - 2
                          - MAGIC_OFFSET (abi b) div 8\<rparr>"
  using assms
  by (auto simp: popCoroutine_def Let_def desc_size_def split: if_splits)


definition popped_image :: "kernel \<Rightarrow> long list" where
  "popped_image k = map (csa k) [csavail k..<csavail k + unat (v_size k)]"

lemma live_split:
  "m \<le> csavail k \<Longrightarrow> live k = map (csa k) [0..<m] @ map (csa k) [m..<csavail k]"
  unfolding live_def
  by (metis le0 map_append upt_add_eq_append le_add_diff_inverse)

lemma images_pop:
  assumes q: "images k = Some q" and p: "popCoroutine b k c = Some (k', c')"
  shows "q \<noteq> []" and "images k' = Some (tl q)"
    and "hd q = (csa k (csavail k - 1), popped_image k')"
proof -
  let ?d = "csa k (csavail k - 1)"
  let ?s = "unat (desc_size ?d)"
  let ?m = "csavail k - 1 - ?s"
  note pk = popCoroutine_kernel [OF p]
  let ?lo = "map (csa k) [0..<?m]"
  let ?img = "map (csa k) [?m..<csavail k - 1]"
  have "[csavail k - 1..<csavail k] = [csavail k - 1]"
    using pk(1) by (metis Suc_diff_1 bot_nat_0.not_eq_extremum upt_Suc upt_eq_Nil_conv
        append_Nil le_refl lessI)
  then have "live k = map (csa k) [0..<csavail k - 1] @ [?d]"
    using live_split [of "csavail k - 1" k] by simp
  also have "map (csa k) [0..<csavail k - 1] = ?lo @ ?img"
    by (metis diff_le_self map_append upt_add_eq_append le_add_diff_inverse le0)
  finally have l: "live k = ?lo @ ?img @ [?d]"
    by simp
  have "csavail k - 1 - ?m = ?s"
    using pk(2) by arith
  then have len: "length ?img = ?s"
    by (simp del: One_nat_def)
  have "parse_down (rev (live k)) = map_option (Cons (?d, ?img)) (parse_down (rev ?lo))"
    unfolding l by (rule parse_down_top) (rule len [symmetric])
  moreover have "live k' = ?lo"
    by (simp add: pk(3) live_def)
  moreover have "popped_image k' = ?img"
    using pk(1,2) by (simp add: pk(3) popped_image_def)
  ultimately show "q \<noteq> []" and "images k' = Some (tl q)"
    and "hd q = (csa k (csavail k - 1), popped_image k')"
    using q by (auto simp: images_def)
qed


lemma live_updates [simp]:
  "live (k\<lparr>v_size := x\<rparr>) = live k"
  "live (k\<lparr>v_RSP := y\<rparr>) = live k"
  "live (k\<lparr>baseMinusSize := z\<rparr>) = live k"
  "live (k\<lparr>base := u\<rparr>) = live k"
  "live (k\<lparr>COBEGIN_EPILOG := v\<rparr>) = live k"
  "live (k\<lparr>coRBP := w\<rparr>) = live k"
  by (simp_all add: live_def)

lemma images_updates [simp]:
  "images (k\<lparr>v_size := x\<rparr>) = images k"
  "images (k\<lparr>v_RSP := y\<rparr>) = images k"
  "images (k\<lparr>coroutineCount := n\<rparr>) = images k"
  "images (k\<lparr>base := u\<rparr>) = images k"
  "images (k\<lparr>COBEGIN_EPILOG := v\<rparr>) = images k"
  "images (k\<lparr>coRBP := w\<rparr>) = images k"
  by (simp_all add: images_def)

lemma desc_size_virgin:
  assumes "S < 2 ^ 56"
  shows "desc_size (virgin_descriptor S a) = word_of_nat S" and "unat (desc_size (virgin_descriptor S a)) = S"
proof -
  show d: "desc_size (virgin_descriptor S a) = word_of_nat S"
    by (simp add: desc_size_def virgin_descriptor_negative virgin_descriptor_size [OF assms])
  show "unat (desc_size (virgin_descriptor S a)) = S"
    unfolding d using assms by (simp add: unat_of_nat)
qed

lemma desc_size_saved:
  assumes "0 \<le> n" "n < 2 ^ 56"
  shows "desc_size (word_of_int n) = word_of_int n" and "unat (word_of_int n :: long) = nat n"
proof -
  have "sint (word_of_int n :: long) = n"
    using assms
    by (simp add: sint_uint uint_word_of_int_eq take_bit_int_eq_self signed_take_bit_int_eq_self)
  then show "desc_size (word_of_int n) = word_of_int n"
    using assms(1) by (simp add: desc_size_def word_sless_alt)
  show "unat (word_of_int n :: long) = nat n"
    using assms by (simp add: unat_eq_nat_uint uint_word_of_int_eq take_bit_int_eq_self)
qed

lemma images_spawned:
  assumes "images k = Some q" and "length (virgin_image b (base k) e args) < 2 ^ 56"
  shows "images (spawned b e args argc k) =
     Some ((virgin_descriptor (length (virgin_image b (base k) e args)) argc,
            virgin_image b (base k) e args) # q)"
proof -
  have "live (spawned b e args argc k) = live k @ virgin_image b (base k) e args
      @ [virgin_descriptor (length (virgin_image b (base k) e args)) argc]"
    by (simp add: spawned_def)
  then have "images (spawned b e args argc k) = parse_down (rev (live k @ virgin_image b (base k) e args
      @ [virgin_descriptor (length (virgin_image b (base k) e args)) argc]))"
    by (simp only: images_def)
  also have "\<dots> = map_option (Cons (virgin_descriptor (length (virgin_image b (base k) e args)) argc,
      virgin_image b (base k) e args)) (parse_down (rev (live k)))"
    by (rule parse_down_top) (rule desc_size_virgin(2) [OF assms(2)])
  finally show ?thesis
    using assms(1) by (simp add: images_def)
qed

lemma images_save_yielder:
  assumes "save_yielder b k c = Some k1" and "images k = Some q"
  shows "images k1 = Some (q @ [(word_of_int (yielder_size b k c), yielder_frame b k c)])"
proof -
  note s = save_yielder_eq [OF assms(1)]
  have "csavail k + nat (yielder_size b k c) + 1 \<le> CSA_SIZE"
    using assms(1) by (auto simp: save_yielder_def Let_def split: if_splits)
  then have "yielder_size b k c < 2 ^ 56"
    by (simp add: CSA_SIZE_def)
  from desc_size_saved [OF s(1) this]
  have "unat (desc_size (word_of_int (yielder_size b k c))) = length (yielder_frame b k c)"
    by simp
  from parse_down_bottom [OF _ this] assms(2)
  have "parse_down (rev (live k) @ word_of_int (yielder_size b k c) # rev (yielder_frame b k c))
      = Some (q @ [(word_of_int (yielder_size b k c), yielder_frame b k c)])"
    by (simp only: images_def)
  then show ?thesis
    by (simp add: images_def s(2))
qed


definition saved_entry :: "build \<Rightarrow> kernel \<Rightarrow> cpu \<Rightarrow> long \<times> long list" where
  "saved_entry b k c = (word_of_int (yielder_size b k c), yielder_frame b k c)"

lemma popCoroutine_keeps:
  assumes "popCoroutine b k c = Some (k', c')"
  shows "base k' = base k" and "coroutineCount k' = coroutineCount k"
    and "COBEGIN_EPILOG k' = COBEGIN_EPILOG k" and "coRBP k' = coRBP k" and "csa k' = csa k"
    and "csavail k' < csavail k"
  using popCoroutine_kernel [OF assms] by (cases k; simp; fail)+

lemma coresume_switch:
  assumes "1 < coroutineCount k" and "images k = Some q" and "coresume b k c = Some out"
  shows "\<exists>k' c'. out = Switches k' c'
      \<and> images k' = Some (tl (q @ [saved_entry b k c]))
      \<and> popped_image k' = snd (hd (q @ [saved_entry b k c]))
      \<and> base k' = base k \<and> coroutineCount k' = coroutineCount k"
proof -
  from assms(1,3) obtain k1 k' c' r s where k1: "save_yielder b k c = Some k1"
    and p: "popCoroutine b (k1\<lparr>v_size := s, v_RSP := r\<rparr>) (c\<lparr>rsp := r\<rparr>) = Some (k', c')"
    and out: "out = Switches k' c'"
    by (auto simp: coresume_def Let_def split: option.splits)
  let ?k2 = "k1\<lparr>v_size := s, v_RSP := r\<rparr>"
  have i: "images ?k2 = Some (q @ [saved_entry b k c])"
    using images_save_yielder [OF k1 assms(2)] by (simp add: saved_entry_def)
  note ip = images_pop [OF i p]
  note sk = save_yielder_eq [OF k1]
  note pk = popCoroutine_keeps [OF p]
  show ?thesis
    using out ip pk(1,2) sk(3,4) by simp
qed

lemma yielder_base:
  "base k' = base k \<Longrightarrow> saved_entry b k' c = saved_entry b k c"
  by (simp add: saved_entry_def yielder_frame_def yielder_size_def)

subsection \<open>Calls of cobegin and the states of the kernel\<close>

text \<open>
  A call \<^verbatim>\<open>cobegin( n, ... )\<close> lists, for each of its \<open>n\<close> coroutines, the entry point, the
  argument count and that many arguments; \<open>va_entries\<close> lays such a list out as the variable
  arguments of the call.
\<close>

definition va_entries :: "(long \<times> long list) list \<Rightarrow> long list" where
  "va_entries es = concat (map (\<lambda>(e, args). e # word_of_nat (length args) # args) es)"

definition image_words :: "build \<Rightarrow> nat \<Rightarrow> nat" where
  "image_words b n =
     nat (saved_regs (abi b) + 3) + (if abi b = Cygwin then 4 else 0) + n + filler_words n"

definition total_words :: "build \<Rightarrow> (long \<times> long list) list \<Rightarrow> nat" where
  "total_words b es = (\<Sum>(e, args)\<leftarrow>es. image_words b (length args) + 1)"

fun spawn_all :: "build \<Rightarrow> (long \<times> long list) list \<Rightarrow> kernel \<Rightarrow> kernel" where
  "spawn_all b [] k = k"
| "spawn_all b ((e, args) # es) k = spawn_all b es (spawned b e args (int (length args)) k)"

definition entry_image :: "build \<Rightarrow> addr \<Rightarrow> long \<times> long list \<Rightarrow> long \<times> long list" where
  "entry_image b bs = (\<lambda>(e, args).
     (virgin_descriptor (length (virgin_image b bs e args)) (int (length args)),
      virgin_image b bs e args))"

lemma length_virgin_image_words:
  "length (virgin_image b bs e args) = image_words b (length args)"
  by (simp add: length_virgin_image length_image_header image_words_def)

lemma spawned_fields [simp]:
  "csavail (spawned b e args argc k) = csavail k + image_words b (length args) + 1"
  "coroutineCount (spawned b e args argc k) = coroutineCount k + 1"
  "base (spawned b e args argc k) = base k"
  "COBEGIN_EPILOG (spawned b e args argc k) = COBEGIN_EPILOG k"
  "coRBP (spawned b e args argc k) = coRBP k"
  by (simp_all add: spawned_def length_virgin_image_words)

lemma spawn_all_fields [simp]:
  "csavail (spawn_all b es k) = csavail k + total_words b es"
  "coroutineCount (spawn_all b es k) = coroutineCount k + int (length es)"
  "base (spawn_all b es k) = base k"
  "COBEGIN_EPILOG (spawn_all b es k) = COBEGIN_EPILOG k"
  "coRBP (spawn_all b es k) = coRBP k"
  by (induction b es k rule: spawn_all.induct; simp add: total_words_def)+

lemma images_spawn_all:
  assumes "images k = Some q" and "csavail k + total_words b es \<le> CSA_SIZE"
  shows "images (spawn_all b es k) = Some (rev (map (entry_image b (base k)) es) @ q)"
  using assms
proof (induction b es k arbitrary: q rule: spawn_all.induct)
  case (1 b k)
  then show ?case by simp
next
  case (2 b e args es k)
  have "image_words b (length args) \<le> CSA_SIZE"
    using 2(3) by (simp add: total_words_def)
  then have "length (virgin_image b (base k) e args) < 2 ^ 56"
    by (simp add: length_virgin_image_words CSA_SIZE_def)
  from images_spawned [OF 2(2) this]
  have "images (spawned b e args (int (length args)) k) = Some (entry_image b (base k) (e, args) # q)"
    by (simp add: entry_image_def)
  from 2(1) [OF this] 2(3) show ?case
    by (simp add: total_words_def)
qed

lemma cobegin_loop_entries:
  assumes "\<forall>(e, args) \<in> set es. length args \<le> 127"
  shows "cobegin_loop b (int (length es)) (va_entries es @ rest) k =
     (if es = [] \<or> (csavail k + total_words b es \<le> CSA_SIZE
                     \<and> coroutineCount k + int (length es) \<le> INT_MAX)
      then Some (spawn_all b es k, rest) else None)"
  using assms
proof (induction es arbitrary: k)
  case Nil
  then show ?case
    by (simp add: cobegin_loop.simps va_entries_def)
next
  case (Cons x es)
  obtain e args where x: "x = (e, args)"
    by (cases x)
  have a: "length args \<le> 127"
    using Cons.prems x by simp
  have v: "va_entries (x # es) @ rest = e # word_of_nat (length args) # (args @ va_entries es @ rest)"
    by (simp add: va_entries_def x)
  have ce: "cobegin_entry b (e # word_of_nat (length args) # (args @ va_entries es @ rest)) k =
      (if csavail k + image_words b (length args) + 1 \<le> CSA_SIZE \<and> coroutineCount k < INT_MAX
       then Some (spawned b e args (int (length args)) k, va_entries es @ rest) else None)"
    using a by (simp add: cobegin_entry_eq int8_of_count length_virgin_image_words Let_def)
  have ih: "cobegin_loop b (int (length es)) (va_entries es @ rest) k' =
     (if es = [] \<or> (csavail k' + total_words b es \<le> CSA_SIZE
                     \<and> coroutineCount k' + int (length es) \<le> INT_MAX)
      then Some (spawn_all b es k', rest) else None)" for k'
    using Cons.IH Cons.prems by simp
  have t: "total_words b (x # es) = image_words b (length args) + 1 + total_words b es"
    by (simp add: total_words_def x)
  have "cobegin_loop b (int (length (x # es))) (va_entries (x # es) @ rest) k =
      (case cobegin_entry b (e # word_of_nat (length args) # (args @ va_entries es @ rest)) k of
         None \<Rightarrow> None
       | Some (k', va') \<Rightarrow> cobegin_loop b (int (length es)) va' k')"
    unfolding v by (subst cobegin_loop.simps) (simp cong: option.case_cong)
  also have "\<dots> = (if csavail k + total_words b (x # es) \<le> CSA_SIZE
                     \<and> coroutineCount k + int (length (x # es)) \<le> INT_MAX
      then Some (spawn_all b (x # es) k, rest) else None)"
  proof (cases "es = []")
    case True
    then show ?thesis
      unfolding ce t
      by (auto simp: x total_words_def cobegin_loop.simps [of _ 0] va_entries_def)
  next
    case False
    then show ?thesis
      unfolding ce t by (auto simp: ih x total_words_def)
  qed
  finally show ?case
    by simp
qed


fun kernel_of :: "outcome \<Rightarrow> kernel" where
  "kernel_of (Returns k c) = k"
| "kernel_of (Switches k c) = k"

lemma images_setBase [simp]: "images (setBase b bp c k) = images k"
  by (cases "abi b") (simp_all add: setBase_def)

lemma setBase_fields [simp]:
  "base (setBase b bp c k) = bp"
  "csavail (setBase b bp c k) = csavail k"
  "coroutineCount (setBase b bp c k) = coroutineCount k"
  by (cases "abi b"; simp add: setBase_def)+

lemma cobegin_outcome:
  assumes "\<forall>(e, args) \<in> set es. length args \<le> 127"
    and "images k = Some q"
    and "cobegin b (int (length es)) (va_entries es) bp k c = Some out"
  shows "\<exists>k' c'. coroutineCount k' = coroutineCount k + int (length es)
     \<and> (out = Returns k' c' \<and> coroutineCount k' \<le> 0
          \<and> images k' = Some (rev (map (entry_image b bp) es) @ q)
        \<or> out = Switches k' c' \<and> 0 < coroutineCount k'
          \<and> rev (map (entry_image b bp) es) @ q \<noteq> []
          \<and> images k' = Some (tl (rev (map (entry_image b bp) es) @ q)))"
proof -
  define k2 where "k2 = (case abi b of
      Cygwin \<Rightarrow> (setBase b bp c k)\<lparr>COBEGIN_EPILOG :=
                   rsp c + (COBEGIN_STACK_ADJUST - CLEANUP_STACK_ADJUST) div 8\<rparr>
    | MacOS \<Rightarrow> setBase b bp c k)"
  have k2: "images k2 = Some q" "base k2 = bp" "coroutineCount k2 = coroutineCount k"
    "csavail k2 = csavail k"
    using assms(2) by (cases "abi b"; simp add: k2_def)+
  let ?k3 = "spawn_all b es k2"
  from assms(3) have l: "cobegin_loop b (int (length es)) (va_entries es @ []) k2 \<noteq> None"
    by (auto simp: cobegin_def k2_def Let_def split: option.splits)
  with cobegin_loop_entries [OF assms(1), of b "[]" k2]
  have l3: "cobegin_loop b (int (length es)) (va_entries es) k2 = Some (?k3, [])"
    and room: "es = [] \<or> csavail k2 + total_words b es \<le> CSA_SIZE"
    by (auto split: if_splits)
  have room': "csavail k2 + total_words b es \<le> CSA_SIZE" if "es \<noteq> []"
    using room that by simp
  have i3: "images ?k3 = Some (rev (map (entry_image b bp) es) @ q)"
  proof (cases "es = []")
    case True
    then show ?thesis using k2 by simp
  next
    case False
    from images_spawn_all [OF k2(1) room' [OF False]] show ?thesis
      by (simp add: k2)
  qed
  have c3: "coroutineCount ?k3 = coroutineCount k + int (length es)"
    by (simp add: k2)
  show ?thesis
  proof (cases "0 < coroutineCount ?k3")
    case False
    with assms(3) l3 have "out = Returns ?k3 c"
      by (simp add: cobegin_def k2_def [symmetric] Let_def)
    with False i3 c3 show ?thesis
      by auto
  next
    case True
    with assms(3) l3 obtain k' c' s r where
      p: "popCoroutine b (?k3\<lparr>v_size := s, v_RSP := r\<rparr>) (c\<lparr>rsp := r\<rparr>) = Some (k', c')"
      and out: "out = Switches k' c'"
      by (auto simp: cobegin_def k2_def [symmetric] Let_def split: if_splits)
    have "images (?k3\<lparr>v_size := s, v_RSP := r\<rparr>) = Some (rev (map (entry_image b bp) es) @ q)"
      using i3 by simp
    note ip = images_pop [OF this p]
    note pk = popCoroutine_keeps [OF p]
    from ip pk(2) c3 True out show ?thesis
      by auto
  qed
qed



lemma invoke_outcome:
  assumes "0 \<le> argc" and "images k = Some q" and "invoke b e argc va k = Some k'"
  shows "coroutineCount k' = coroutineCount k + 1" and "\<exists>x. images k' = Some (x # q)"
proof -
  from assms(3) have k': "k' = spawned b e (take (nat argc) va) argc k"
    and room: "csavail k + length (virgin_image b (base k) e (take (nat argc) va)) + 1 \<le> CSA_SIZE"
    by (auto simp: invoke_eq [OF assms(1)] split: if_splits)
  show "coroutineCount k' = coroutineCount k + 1"
    by (simp add: k')
  have "length (virgin_image b (base k) e (take (nat argc) va)) < 2 ^ 56"
    using room by (simp add: CSA_SIZE_def)
  from images_spawned [OF assms(2) this] show "\<exists>x. images k' = Some (x # q)"
    by (simp add: k')
qed

lemma coresume_outcome:
  assumes "images k = Some q" and "coresume b k c = Some out"
  shows "coroutineCount (kernel_of out) = coroutineCount k"
    and "\<exists>q'. images (kernel_of out) = Some q' \<and> length q' = length q"
proof -
  have "coroutineCount (kernel_of out) = coroutineCount k
      \<and> (\<exists>q'. images (kernel_of out) = Some q' \<and> length q' = length q)"
  proof (cases "1 < coroutineCount k")
    case True
    from coresume_switch [OF True assms] show ?thesis
      by auto
  next
    case False
    with assms show ?thesis
      by (auto simp: coresume_def)
  qed
  then show "coroutineCount (kernel_of out) = coroutineCount k"
    and "\<exists>q'. images (kernel_of out) = Some q' \<and> length q' = length q"
    by simp_all
qed

subsection \<open>Restoring a coroutine that has not run yet\<close>

definition header_words :: "build \<Rightarrow> nat" where
  "header_words b = (case abi b of MacOS \<Rightarrow> 4 | Cygwin \<Rightarrow> 10)"

lemma length_image_header_words [simp]: "length (image_header b bs e) = header_words b"
  by (cases "abi b") (simp_all add: image_header_def header_words_def)

lemma image_words_header: "image_words b n = header_words b + n + filler_words n"
  by (cases "abi b") (simp_all add: image_words_def header_words_def)

text \<open>The state of the processor after popCoroutine has restored a virgin image.\<close>

definition virgin_cpu :: "build \<Rightarrow> kernel \<Rightarrow> cpu \<Rightarrow> nat \<Rightarrow> nat \<Rightarrow> cpu" where
  "virgin_cpu b k c lo n =
     (let R = nat (IN_REGISTERS_COUNT (abi b));
          L = image_words b n;
          bms = base k - int L - 2;
          sp = bms - MAGIC_OFFSET (abi b) div 8;
          m1 = copy_to_stack (mem c) bms (csa k) (int lo) (int L);
          m2 = (if R < n
                then copy_to_stack m1 (bms + int (header_words b)) (csa k)
                       (int (lo + header_words b + R)) (int (n - R))
                else m1)
      in if n = 0 then c\<lparr>rsp := sp, mem := m1\<rparr>
         else (switch_mark (abi b) (int (min n R)) (csa k)
                 (int (lo + header_words b + min n R) - 1) (c\<lparr>mem := m2\<rparr>))\<lparr>rsp := sp\<rparr>)"

lemma popCoroutine_virgin:
  assumes l: "live k = xs @ virgin_image b bs e args
                @ [virgin_descriptor (image_words b (length args)) (int (length args))]"
    and n: "length args \<le> 127" and s: "csavail k \<le> CSA_SIZE"
  shows "popCoroutine b k c =
     Some (k\<lparr>csavail := length xs,
             baseMinusSize := base k - int (image_words b (length args)) - 2,
             v_size := word_of_nat (image_words b (length args)),
             v_RSP := base k - int (image_words b (length args)) - 2 - MAGIC_OFFSET (abi b) div 8\<rparr>,
           virgin_cpu b k c (length xs) (length args))"
proof -
  let ?N = "length args"
  let ?L = "image_words b ?N"
  let ?d = "virgin_descriptor ?L (int ?N)"
  have len: "csavail k = length xs + ?L + 1"
    using arg_cong [OF l, of length] by (simp add: length_virgin_image_words)
  then have L56: "?L < 2 ^ 56"
    using s by (simp add: CSA_SIZE_def)
  have top: "csavail k - 1 = length xs + ?L" "csavail k \<noteq> 0"
    using len by simp_all
  have d: "csa k (length xs + ?L) = ?d"
    using live_nth [of "length xs + ?L" k] len by (simp add: l nth_append length_virgin_image_words)
  have neg: "?d <s 0"
    by (rule virgin_descriptor_negative)
  have sz: "?d AND SIZE_MASK = word_of_nat ?L"
    by (rule virgin_descriptor_size [OF L56])
  have usz: "unat (word_of_nat ?L :: long) = ?L"
    using L56 by (simp add: unat_of_nat)
  have ssz: "sint (word_of_nat ?L :: long) = int ?L"
    using L56 by (simp add: sint_uint signed_take_bit_int_eq_self take_bit_int_eq_self
        unsigned_of_nat take_bit_nat_eq_self)
  have "uint ((ucast (signed_drop_bit 56 ?d) :: 8 word) AND 0x7F)
      = uint ((word_of_int (int ?N) :: 8 word) AND 0x7F)"
    by (simp only: virgin_descriptor_mark [OF L56])
  also have "\<dots> = int ?N"
    by (rule mark_value) (use n in simp_all)
  finally have mark: "uint ((ucast (signed_drop_bit 56 ?d) :: 8 word) AND 0x7F) = int ?N" .
  have hc: "(case abi b of MacOS \<Rightarrow> 4 | Cygwin \<Rightarrow> 6 + 4) = int (header_words b)"
    by (cases "abi b") (simp_all add: header_words_def)
  have R: "0 \<le> IN_REGISTERS_COUNT (abi b)"
    by (cases "abi b") simp_all
  have p1: "(if int ?N mod 2 \<noteq> 0 then int (length xs + ?L) - 1 - 1 else int (length xs + ?L) - 1)
      = int (length xs + header_words b + ?N) - 1" if "?N \<noteq> 0"
  proof (cases "even ?N")
    case True
    then have "int ?N mod 2 = 0"
      by presburger
    with that True show ?thesis
      by (simp add: image_words_header filler_words_def)
  next
    case False
    then have "int ?N mod 2 \<noteq> 0"
      by presburger
    with that False show ?thesis
      by (simp add: image_words_header filler_words_def)
  qed
  show ?thesis
  proof (cases "?N = 0")
    case True
    show ?thesis
      apply (simp only: popCoroutine_def top d Let_def neg if_True if_False sz usz ssz mark)
      using True by (simp add: virgin_cpu_def Let_def)
  next
    case False
    show ?thesis
      apply (simp only: popCoroutine_def top d Let_def neg if_True if_False sz usz ssz mark
          p1 [OF False] hc)
      using False R by (auto simp: virgin_cpu_def Let_def min_def algebra_simps)
  qed
qed


definition arg_registers :: "platform \<Rightarrow> cpu \<Rightarrow> long list" where
  "arg_registers pl c =
     (case pl of
        MacOS \<Rightarrow> [rdi c, rsi c, rdx c, rcx c, r8 c, r9 c]
      | Cygwin \<Rightarrow> [rcx c, rdx c, r8 c, r9 c])"

lemmas switch_cases =
  mac_case1_def mac_case2_def mac_case3_def mac_case4_def mac_case5_def mac_case6_def
  cyg_case1_def cyg_case2_def cyg_case3_def cyg_case4_def

lemma switch_mark_keeps [simp]:
  "mem (switch_mark pl m a p c) = mem c"
  "rsp (switch_mark pl m a p c) = rsp c"
  "rbp (switch_mark pl m a p c) = rbp c"
  "rip (switch_mark pl m a p c) = rip c"
  by (cases pl; simp add: switch_cases)+

lemma less_cases:
  "i < (1::nat) \<longleftrightarrow> i = 0"
  "i < (2::nat) \<longleftrightarrow> i = 0 \<or> i = 1"
  "i < (3::nat) \<longleftrightarrow> i = 0 \<or> i = 1 \<or> i = 2"
  "i < (4::nat) \<longleftrightarrow> i = 0 \<or> i = 1 \<or> i = 2 \<or> i = 3"
  "i < (5::nat) \<longleftrightarrow> i = 0 \<or> i = 1 \<or> i = 2 \<or> i = 3 \<or> i = 4"
  "i < (6::nat) \<longleftrightarrow> i = 0 \<or> i = 1 \<or> i = 2 \<or> i = 3 \<or> i = 4 \<or> i = 5"
  by auto

lemma all_less_8:
  "(\<forall>i<8. P i) \<longleftrightarrow> P 0 \<and> P 1 \<and> P 2 \<and> P 3 \<and> P 4 \<and> P 5 \<and> P 6 \<and> P (7::nat)"
proof -
  have "i < 8 \<longleftrightarrow> i = 0 \<or> i = 1 \<or> i = 2 \<or> i = 3 \<or> i = 4 \<or> i = 5 \<or> i = 6 \<or> i = 7" for i :: nat
    by auto
  then show ?thesis
    by auto
qed

lemma switch_mark_registers:
  assumes "1 \<le> m" and "int m \<le> IN_REGISTERS_COUNT pl" and "i < m"
  shows "arg_registers pl (switch_mark pl (int m) a p c) ! i = a (nat (p - int (m - 1 - i)))"
proof (cases pl)
  case MacOS
  with assms(1,2) have "m = 1 \<or> m = 2 \<or> m = 3 \<or> m = 4 \<or> m = 5 \<or> m = 6"
    by auto
  moreover
  {
    assume m: "m = 1"
    with assms(3) have "i = 0"
      by auto
    then have ?thesis
      using m MacOS 
      by (auto simp: arg_registers_def switch_cases)
  }
  moreover
  {
    assume m: "m = 2"
    with assms(3) have "i = 0 \<or> i = 1"
      by auto
    then have ?thesis
      using m MacOS 
      by (auto simp: arg_registers_def switch_cases)
  }
  moreover
  {
    assume m: "m = 3"
    with assms(3) have "i = 0 \<or> i = 1 \<or> i = 2"
      by auto
    then have ?thesis
      using m MacOS 
      by (auto simp: arg_registers_def switch_cases)
  }
  moreover
  {
    assume m: "m = 4"
    with assms(3) have "i = 0 \<or> i = 1 \<or> i = 2 \<or> i = 3"
      by auto
    then have ?thesis
      using m MacOS 
      by (auto simp: arg_registers_def switch_cases)
  }
  moreover
  {
    assume m: "m = 5"
    with assms(3) have "i = 0 \<or> i = 1 \<or> i = 2 \<or> i = 3 \<or> i = 4"
      by auto
    then have ?thesis
      using m MacOS 
      by (auto simp: arg_registers_def switch_cases)
  }
  moreover
  {
    assume m: "m = 6"
    with assms(3) have "i = 0 \<or> i = 1 \<or> i = 2 \<or> i = 3 \<or> i = 4 \<or> i = 5"
      by auto
    then have ?thesis
      using m MacOS 
      by (auto simp: arg_registers_def switch_cases)
  }
  ultimately show ?thesis
    by blast
next
  case Cygwin
  with assms(1,2) have "m = 1 \<or> m = 2 \<or> m = 3 \<or> m = 4"
    by auto
  moreover
  {
    assume m: "m = 1"
    with assms(3) have "i = 0"
      by auto
    then have ?thesis
      using m Cygwin 
      by (auto simp: arg_registers_def switch_cases)
  }
  moreover
  {
    assume m: "m = 2"
    with assms(3) have "i = 0 \<or> i = 1"
      by auto
    then have ?thesis
      using m Cygwin 
      by (auto simp: arg_registers_def switch_cases)
  }
  moreover
  {
    assume m: "m = 3"
    with assms(3) have "i = 0 \<or> i = 1 \<or> i = 2"
      by auto
    then have ?thesis
      using m Cygwin 
      by (auto simp: arg_registers_def switch_cases)
  }
  moreover
  {
    assume m: "m = 4"
    with assms(3) have "i = 0 \<or> i = 1 \<or> i = 2 \<or> i = 3"
      by auto
    then have ?thesis
      using m Cygwin 
      by (auto simp: arg_registers_def switch_cases)
  }
  ultimately show ?thesis
    by blast
qed


lemma copy_to_stack_hit:
  "0 \<le> j \<Longrightarrow> j < cnt \<Longrightarrow> copy_to_stack m dst a i cnt (dst + j) = a (nat (i + j))"
  by (simp add: copy_to_stack_def)

lemma copy_to_stack_miss:
  "x < dst \<or> dst + cnt \<le> x \<Longrightarrow> copy_to_stack m dst a i cnt x = m x"
  by (auto simp: copy_to_stack_def)

lemma virgin_image_nth:
  "i < header_words b \<Longrightarrow> virgin_image b bs e args ! i = image_header b bs e ! i"
  "i < length args \<Longrightarrow> virgin_image b bs e args ! (header_words b + i) = args ! i"
  by (simp_all add: virgin_image_def nth_append)

lemma virgin_cpu_rsp:
  "rsp (virgin_cpu b k c lo n) = base k - int (image_words b n) - 2 - MAGIC_OFFSET (abi b) div 8"
  by (simp add: virgin_cpu_def Let_def)

lemma virgin_cpu_mem:
  "mem (virgin_cpu b k c lo n) =
     (let R = nat (IN_REGISTERS_COUNT (abi b));
          bms = base k - int (image_words b n) - 2;
          m1 = copy_to_stack (mem c) bms (csa k) (int lo) (int (image_words b n))
      in if R < n
         then copy_to_stack m1 (bms + int (header_words b)) (csa k)
                (int (lo + header_words b + R)) (int (n - R))
         else m1)"
  by (simp add: virgin_cpu_def Let_def)

lemma virgin_cpu_header:
  assumes "\<And>i. i < image_words b (length args) \<Longrightarrow> csa k (lo + i) = virgin_image b bs e args ! i"
    and "i < header_words b"
  shows "mem (virgin_cpu b k c lo (length args))
           (base k - int (image_words b (length args)) - 2 + int i) = image_header b bs e ! i"
proof -
  have "i < image_words b (length args)"
    using assms(2) by (simp add: image_words_header)
  from assms(1) [OF this] assms(2) show ?thesis
    by (simp add: virgin_cpu_mem Let_def copy_to_stack_def virgin_image_nth image_words_header
        nat_add_distrib)
qed

lemma virgin_cpu_stack_args:
  assumes "\<And>i. i < image_words b (length args) \<Longrightarrow> csa k (lo + i) = virgin_image b bs e args ! i"
    and "j < length args - nat (IN_REGISTERS_COUNT (abi b))"
  shows "mem (virgin_cpu b k c lo (length args))
           (base k - int (image_words b (length args)) - 2 + int (header_words b + j))
         = args ! (nat (IN_REGISTERS_COUNT (abi b)) + j)"
proof -
  let ?R = "nat (IN_REGISTERS_COUNT (abi b))"
  have r: "?R + j < length args"
    using assms(2) by simp
  then have "header_words b + (?R + j) < image_words b (length args)"
    by (simp add: image_words_header)
  from assms(1) [OF this] r have a: "csa k (lo + header_words b + ?R + j) = args ! (?R + j)"
    by (simp add: virgin_image_nth add.assoc)
  let ?bms = "base k - int (image_words b (length args)) - 2"
  let ?m1 = "copy_to_stack (mem c) ?bms (csa k) (int lo) (int (image_words b (length args)))"
  have "?R < length args"
    using assms(2) by simp
  then have "mem (virgin_cpu b k c lo (length args)) =
      copy_to_stack ?m1 (?bms + int (header_words b)) (csa k)
        (int (lo + header_words b + ?R)) (int (length args - ?R))"
    by (simp add: virgin_cpu_mem Let_def)
  moreover have "?bms + int (header_words b + j) = (?bms + int (header_words b)) + int j"
    by simp
  moreover have "int j < int (length args - ?R)"
    using assms(2) by (simp only: of_nat_less_iff)
  ultimately have "mem (virgin_cpu b k c lo (length args)) (?bms + int (header_words b + j)) =
      csa k (nat (int (lo + header_words b + ?R) + int j))"
    by (simp only: copy_to_stack_hit of_nat_0_le_iff)
  also have "nat (int (lo + header_words b + ?R) + int j) = lo + header_words b + ?R + j"
    by linarith
  finally show ?thesis
    using a by simp
qed

lemma virgin_cpu_registers:
  assumes "\<And>i. i < image_words b (length args) \<Longrightarrow> csa k (lo + i) = virgin_image b bs e args ! i"
    and "i < min (length args) (nat (IN_REGISTERS_COUNT (abi b)))"
  shows "arg_registers (abi b) (virgin_cpu b k c lo (length args)) ! i = args ! i"
proof -
  let ?R = "nat (IN_REGISTERS_COUNT (abi b))"
  let ?m = "min (length args) ?R"
  have R: "0 \<le> IN_REGISTERS_COUNT (abi b)"
    by (cases "abi b") simp_all
  have m: "1 \<le> ?m" "int ?m \<le> IN_REGISTERS_COUNT (abi b)" "i < ?m" "length args \<noteq> 0"
    using assms(2) R by auto
  have "header_words b + i < image_words b (length args)"
    using assms(2) by (simp add: image_words_header)
  from assms(1) [OF this] assms(2) have a: "csa k (lo + header_words b + i) = args ! i"
    by (simp add: virgin_image_nth add.assoc)
  have "nat (int (lo + header_words b + ?m) - 1 - int (?m - 1 - i)) = lo + header_words b + i"
    using m(1,3) by linarith
  with switch_mark_registers [OF m(1,2,3), of "csa k" "int (lo + header_words b + ?m) - 1"] a
  have "arg_registers (abi b) (switch_mark (abi b) (int ?m) (csa k)
          (int (lo + header_words b + ?m) - 1) c0) ! i = args ! i" for c0
    by simp
  moreover have "arg_registers pl (c1\<lparr>rsp := x\<rparr>) = arg_registers pl c1" for pl c1 x
    by (cases pl) (simp_all add: arg_registers_def)
  ultimately show ?thesis
    using m(4) by (simp add: virgin_cpu_def Let_def)
qed

text \<open>
  Where a function finds its integer arguments when it is entered, with rsp at its return
  address: the first ones in the argument registers of the calling convention (rdi, rsi, rdx,
  rcx, r8, r9 on System V; rcx, rdx, r8, r9 on Windows x64), the others on the stack above
  the return address, on Windows x64 above the four words of shadow space.
\<close>

fun shadow_words :: "platform \<Rightarrow> int" where
  "shadow_words MacOS = 0"
| "shadow_words Cygwin = 4"

definition observed_arg :: "platform \<Rightarrow> cpu \<Rightarrow> nat \<Rightarrow> long" where
  "observed_arg pl c i =
     (if int i < IN_REGISTERS_COUNT pl then arg_registers pl c ! i
      else mem c (rsp c + 1 + shadow_words pl + (int i - IN_REGISTERS_COUNT pl)))"

lemma epilogue_fields:
  "rsp (popCoroutine_epilogue b c) = rsp c + MAGIC_OFFSET (abi b) div 8 + saved_regs (abi b) + 2"
  "rip (popCoroutine_epilogue b c) = mem c (rsp c + MAGIC_OFFSET (abi b) div 8 + saved_regs (abi b) + 1)"
  "mem (popCoroutine_epilogue b c) = mem c"
  "arg_registers pl (popCoroutine_epilogue b c) = arg_registers pl c"
  by (cases pl; simp add: popCoroutine_epilogue_def ret_def pop_rbp_def arg_registers_def)+

lemma header_entry:
  "image_header b bs e ! nat (saved_regs (abi b) + 1) = e"
  "image_header b bs e ! nat (saved_regs (abi b) + 2) = cleanup_fn b + CLEANUP_OFFSET (abi b)"
  "nat (saved_regs (abi b) + 1) < header_words b"
  "nat (saved_regs (abi b) + 2) < header_words b"
  "int (header_words b) = saved_regs (abi b) + 3 + shadow_words (abi b)"
  by (cases "abi b"; simp add: image_header_def header_words_def)+

lemma spawned_csa:
  assumes "i < image_words b (length args)"
  shows "csa (spawned b e args argc k) (csavail k + i) = virgin_image b (base k) e args ! i"
  using assms by (simp add: spawned_def csa_append_def length_virgin_image_words nth_append)

lemma virgin_entry:
  assumes c1: "c1 = virgin_cpu b k1 c lo (length args)"
    and A: "\<And>i. i < image_words b (length args) \<Longrightarrow> csa k1 (lo + i) = virgin_image b bs e args ! i"
  shows "rip (popCoroutine_epilogue b c1) = e"
    and "mem (popCoroutine_epilogue b c1) (rsp (popCoroutine_epilogue b c1))
           = cleanup_fn b + CLEANUP_OFFSET (abi b)"
    and "rsp (popCoroutine_epilogue b c1) + 1 + shadow_words (abi b)
           = base k1 - int (image_words b (length args)) - 2 + int (header_words b)"
proof -
  let ?bms = "base k1 - int (image_words b (length args)) - 2"
  have sp: "rsp c1 = ?bms - MAGIC_OFFSET (abi b) div 8"
    by (simp add: c1 virgin_cpu_rsp)
  have h: "mem c1 (?bms + int i) = image_header b bs e ! i" if "i < header_words b" for i
    unfolding c1 using A that by (rule virgin_cpu_header)
  have "rip (popCoroutine_epilogue b c1) = mem c1 (?bms + int (nat (saved_regs (abi b) + 1)))"
    by (cases "abi b") (simp_all add: epilogue_fields sp)
  then show "rip (popCoroutine_epilogue b c1) = e"
    by (simp only: h [OF header_entry(3)] header_entry(1))
  have r: "rsp (popCoroutine_epilogue b c1) = ?bms + int (nat (saved_regs (abi b) + 2))"
    by (cases "abi b") (simp_all add: epilogue_fields sp)
  then have "mem (popCoroutine_epilogue b c1) (rsp (popCoroutine_epilogue b c1))
      = mem c1 (?bms + int (nat (saved_regs (abi b) + 2)))"
    by (simp only: epilogue_fields)
  then show "mem (popCoroutine_epilogue b c1) (rsp (popCoroutine_epilogue b c1))
           = cleanup_fn b + CLEANUP_OFFSET (abi b)"
    by (simp only: h [OF header_entry(4)] header_entry(2))
  show "rsp (popCoroutine_epilogue b c1) + 1 + shadow_words (abi b) = ?bms + int (header_words b)"
    unfolding r header_entry(5) by (cases "abi b") simp_all
qed


lemma spawned_pop:
  assumes n: "length args \<le> 127"
    and room: "csavail k + image_words b (length args) + 1 \<le> CSA_SIZE"
  shows "popCoroutine b (spawned b e args (int (length args)) k) c =
     Some ((spawned b e args (int (length args)) k)
             \<lparr>csavail := csavail k,
              baseMinusSize := base k - int (image_words b (length args)) - 2,
              v_size := word_of_nat (image_words b (length args)),
              v_RSP := base k - int (image_words b (length args)) - 2 - MAGIC_OFFSET (abi b) div 8\<rparr>,
           virgin_cpu b (spawned b e args (int (length args)) k) c (csavail k) (length args))"
proof -
  let ?k1 = "spawned b e args (int (length args)) k"
  have "live ?k1 = live k @ virgin_image b (base k) e args
      @ [virgin_descriptor (image_words b (length args)) (int (length args))]"
    by (simp add: spawned_def length_virgin_image_words)
  moreover have "csavail ?k1 \<le> CSA_SIZE"
    using room by simp
  ultimately show ?thesis
    using popCoroutine_virgin [of ?k1 "live k" b "base k" e args c] n by simp
qed

subsection \<open>The first coroutine that a call of cobegin starts\<close>

text \<open>The words that the entries of a \<^verbatim>\<open>cobegin\<close> store, in the order of the CSA.\<close>

definition entry_words :: "build \<Rightarrow> addr \<Rightarrow> long \<times> long list \<Rightarrow> long list" where
  "entry_words b bs = (\<lambda>(e, args).
     virgin_image b bs e args
     @ [virgin_descriptor (image_words b (length args)) (int (length args))])"

definition virgin_stack :: "build \<Rightarrow> addr \<Rightarrow> (long \<times> long list) list \<Rightarrow> long list" where
  "virgin_stack b bs es = concat (map (entry_words b bs) es)"

text \<open>The epilogue of \<^verbatim>\<open>popCoroutine\<close> enters \<open>e\<close> with \<^verbatim>\<open>cleanup\<close> as its return address.\<close>

definition entered :: "build \<Rightarrow> long \<Rightarrow> cpu \<Rightarrow> bool" where
  "entered b e c \<longleftrightarrow>
     rip (popCoroutine_epilogue b c) = e
   \<and> mem (popCoroutine_epilogue b c) (rsp (popCoroutine_epilogue b c))
       = cleanup_fn b + CLEANUP_OFFSET (abi b)"

lemma live_spawn_all:
  "live (spawn_all b es k) = live k @ virgin_stack b (base k) es"
  by (induction b es k rule: spawn_all.induct)
    (simp_all add: virgin_stack_def entry_words_def spawned_def length_virgin_image_words)

lemma pop_virgin_stack:
  assumes l: "live k = pre @ virgin_stack b bs (es @ [(e, args)])"
    and n: "length args \<le> 127" and s: "csavail k \<le> CSA_SIZE"
  shows "\<exists>k' c'. popCoroutine b k c = Some (k', c')
     \<and> live k' = pre @ virgin_stack b bs es \<and> entered b e c'
     \<and> base k' = base k \<and> coroutineCount k' = coroutineCount k
     \<and> COBEGIN_EPILOG k' = COBEGIN_EPILOG k \<and> coRBP k' = coRBP k"
proof -
  let ?xs = "pre @ virgin_stack b bs es"
  let ?N = "length args"
  have l': "live k = ?xs @ virgin_image b bs e args
      @ [virgin_descriptor (image_words b ?N) (int ?N)]"
    by (simp add: l virgin_stack_def entry_words_def)
  note p = popCoroutine_virgin [OF l' n s, of c]
  let ?k' = "k\<lparr>csavail := length ?xs,
             baseMinusSize := base k - int (image_words b ?N) - 2,
             v_size := word_of_nat (image_words b ?N),
             v_RSP := base k - int (image_words b ?N) - 2 - MAGIC_OFFSET (abi b) div 8\<rparr>"
  have len: "csavail k = length ?xs + image_words b ?N + 1"
    using arg_cong [OF l', of length] by (simp add: length_virgin_image_words)
  have "live ?k' = take (length ?xs) (live k)"
    using len by (simp add: live_def take_map)
  then have lk: "live ?k' = ?xs"
    by (simp add: l')
  have A: "csa k (length ?xs + i) = virgin_image b bs e args ! i" if "i < image_words b ?N" for i
  proof -
    have "csa k (length ?xs + i) = live k ! (length ?xs + i)"
      using that len by (simp add: live_nth)
    also have "\<dots> = virgin_image b bs e args ! i"
      using that by (simp add: l' nth_append length_virgin_image_words)
    finally show ?thesis .
  qed
  from virgin_entry(1,2) [OF refl A, where c = c]
  have "entered b e (virgin_cpu b k c (length ?xs) ?N)"
    by (simp add: entered_def)
  with p lk show ?thesis
    by simp
qed


lemma length_le_total_words: "length es \<le> total_words b es"
  by (induction es) (auto simp: total_words_def)

lemma cobegin_starts:
  assumes "0 \<le> coroutineCount k"
    and "coroutineCount k + int (length (es @ [(e, args)])) \<le> INT_MAX"
    and "\<forall>(e, args) \<in> set es. length args \<le> 127" and "length args \<le> 127"
    and "csavail k + total_words b (es @ [(e, args)]) \<le> CSA_SIZE"
  shows "\<exists>k' c'. cobegin b (int (length (es @ [(e, args)]))) (va_entries (es @ [(e, args)])) bp k c
       = Some (Switches k' c')
     \<and> live k' = live k @ virgin_stack b (base k') es \<and> entered b e c'
     \<and> coroutineCount k' = coroutineCount k + int (length es) + 1
     \<and> csavail k' \<le> CSA_SIZE \<and> base k' = bp"
proof -
  let ?es = "es @ [(e, args)]"
  define k2 where "k2 = (case abi b of
      Cygwin \<Rightarrow> (setBase b bp c k)\<lparr>COBEGIN_EPILOG :=
                   rsp c + (COBEGIN_STACK_ADJUST - CLEANUP_STACK_ADJUST) div 8\<rparr>
    | MacOS \<Rightarrow> setBase b bp c k)"
  have k2: "base k2 = bp" "coroutineCount k2 = coroutineCount k" "csavail k2 = csavail k"
    "live k2 = live k"
    by (cases "abi b"; simp add: k2_def live_def setBase_def)+
  have ok: "\<forall>(e, args) \<in> set ?es. length args \<le> 127"
    using assms(3,4) by simp
  let ?k3 = "spawn_all b ?es k2"
  from cobegin_loop_entries [OF ok, of b "[]" k2] assms(2,5)
  have l3: "cobegin_loop b (int (length ?es)) (va_entries ?es) k2 = Some (?k3, [])"
    by (simp add: k2)
  have c3: "0 < coroutineCount ?k3"
    using assms(1) by (simp add: k2)
  have nz: "csavail ?k3 \<noteq> 0"
    by (simp add: total_words_def)
  have l: "live ?k3 = live k @ virgin_stack b bp ?es"
    by (simp add: live_spawn_all k2)
  define s where "s = csa ?k3 (csavail ?k3 - 1) AND SIZE_MASK"
  define r where "r = rsp c - (sint s + EXTRA_STACK)"
  let ?k4 = "?k3\<lparr>v_size := s, v_RSP := r\<rparr>"
  have co: "cobegin b (int (length ?es)) (va_entries ?es) bp k c =
      map_option (\<lambda>(k', c'). Switches k' c') (popCoroutine b ?k4 (c\<lparr>rsp := r\<rparr>))"
    using l3 nz c3
    by (simp add: cobegin_def k2_def [symmetric] Let_def s_def r_def del: spawn_all_fields)
  have "live ?k4 = live k @ virgin_stack b bp (es @ [(e, args)])"
    using l by simp
  moreover have "csavail ?k4 \<le> CSA_SIZE"
    using assms(5) by (simp add: k2)
  ultimately obtain k' c' where
    p: "popCoroutine b ?k4 (c\<lparr>rsp := r\<rparr>) = Some (k', c')"
    and k': "live k' = live k @ virgin_stack b bp es" "entered b e c'" "base k' = base ?k4"
      "coroutineCount k' = coroutineCount ?k4"
    using pop_virgin_stack [of ?k4 "live k" b bp es e args "c\<lparr>rsp := r\<rparr>"] assms(4)
    by auto
  have "csavail k' \<le> CSA_SIZE"
    using popCoroutine_keeps(6) [OF p] assms(5) by (simp add: k2)
  with co p k' show ?thesis
    by (simp add: k2)
qed

subsection \<open>The count of coroutines\<close>

text \<open>
  The argument count that \<^verbatim>\<open>popCoroutine\<close> reads from a size word. It loads that many
  arguments from the words below the size word, after the filler of an odd count: an image
  can be restored when they lie within it.
\<close>

definition mark_of :: "long \<Rightarrow> int" where
  "mark_of d = (if d <s 0 then uint ((ucast (signed_drop_bit 56 d) :: 8 word) AND 0x7F) else 0)"

definition restorable :: "long \<times> long list \<Rightarrow> bool" where
  "restorable = (\<lambda>(d, img). mark_of d + mark_of d mod 2 \<le> int (length img))"


lemma mark_mod: "uint ((word_of_int a :: 8 word) AND 0x7F) = a mod 128"
proof -
  have m: "(0x7F :: 8 word) = mask 7" by (simp add: mask_eq_exp_minus_1)
  have "uint ((word_of_int a :: 8 word) AND mask 7) = take_bit 7 (uint (word_of_int a :: 8 word))"
    by (simp add: unsigned_take_bit_eq flip: take_bit_eq_mask)
  also have "\<dots> = take_bit 7 (take_bit 8 a)"
    by (simp add: uint_word_of_int_eq)
  also have "\<dots> = a mod 128"
    by (simp add: take_bit_eq_mod mod_mod_cancel)
  finally show ?thesis
    unfolding m .
qed

lemma mark_of_virgin:
  assumes "S < 2 ^ 56"
  shows "mark_of (virgin_descriptor S a) = a mod 128"
  by (simp add: mark_of_def virgin_descriptor_negative virgin_descriptor_mark [OF assms] mark_mod)

lemma mark_of_saved:
  assumes "0 \<le> n" "n < 2 ^ 56"
  shows "mark_of (word_of_int n) = 0"
proof -
  have "sint (word_of_int n :: long) = n"
    using assms by (simp add: sint_uint uint_word_of_int_eq signed_take_bit_int_eq_self
        take_bit_int_eq_self)
  then show ?thesis
    using assms by (simp add: mark_of_def word_sless_alt)
qed

lemma restorable_virgin:
  assumes "0 \<le> argc" and "length args = nat argc"
    and "length (virgin_image b bs e args) < 2 ^ 56"
  shows "restorable (virgin_descriptor (length (virgin_image b bs e args)) argc,
                     virgin_image b bs e args)"
proof -
  have "argc mod 128 \<le> argc"
    using assms(1) by (simp add: zmod_le_nonneg_dividend)
  moreover have "argc mod 128 mod 2 = argc mod 2"
    by (simp add: mod_mod_cancel)
  moreover have "argc mod 2 \<le> int (filler_words (nat argc))"
    using assms(1) by (auto simp: filler_words_def even_nat_iff)
  ultimately show ?thesis
    using assms
    by (simp add: restorable_def mark_of_virgin length_virgin_image)
qed

lemma images_top:
  assumes "images k = Some ((d, img) # q)"
  shows "csavail k \<noteq> 0" and "csa k (csavail k - 1) = d"
    and "unat (desc_size d) = length img" and "length img \<le> csavail k - 1"
proof -
  show n: "csavail k \<noteq> 0"
  proof
    assume "csavail k = 0"
    then have "images k = Some []"
      by (simp add: images_def live_def)
    with assms show False
      by simp
  qed
  then have l: "live k = map (csa k) [0..<csavail k - 1] @ [csa k (csavail k - 1)]"
    by (cases "csavail k") (simp_all add: live_def)
  from assms show d: "csa k (csavail k - 1) = d"
    by (auto simp: images_def l split: if_splits)
  from assms show "unat (desc_size d) = length img" "length img \<le> csavail k - 1"
    by (auto simp: images_def l split: if_splits)
qed

lemma popCoroutine_defined:
  assumes "images k = Some ((d, img) # q)" and "restorable (d, img)"
  shows "\<exists>k' c'. popCoroutine b k c = Some (k', c')"
proof -
  note t = images_top [OF assms(1)]
  have sz: "(if d <s 0 then d AND SIZE_MASK else d) = desc_size d"
    by (simp add: desc_size_def)
  have mk: "(if d <s 0 then uint ((ucast (signed_drop_bit 56 d) :: 8 word) AND 0x7F) else 0)
      = mark_of d"
    by (simp add: mark_of_def)
  have r: "mark_of d + mark_of d mod 2 \<le> int (csavail k) - 1"
    using assms(2) t(1,4) by (simp add: restorable_def)
  have m2: "mark_of d mod 2 = 0 \<or> mark_of d mod 2 = 1"
    by auto
  show ?thesis
    using t(1,3,4) r m2
    unfolding popCoroutine_def t(2) Let_def sz mk
    by (auto simp: not_less)
qed















lemma restorable_saved:
  assumes "save_yielder b k c = Some k1"
  shows "restorable (saved_entry b k c)"
proof -
  from assms have "0 \<le> yielder_size b k c" "csavail k + nat (yielder_size b k c) + 1 \<le> CSA_SIZE"
    by (auto simp: save_yielder_def Let_def split: if_splits)
  then have "mark_of (word_of_int (yielder_size b k c)) = 0"
    by (intro mark_of_saved) (simp_all add: CSA_SIZE_def)
  then show ?thesis
    by (simp add: restorable_def saved_entry_def)
qed


lemma coresume_defined:
  assumes "1 < coroutineCount k" and "images k = Some (x # q)" and "restorable x"
    and "0 \<le> yielder_size b k c" and "csavail k + nat (yielder_size b k c) + 1 \<le> CSA_SIZE"
  shows "\<exists>k' c'. coresume b k c = Some (Switches k' c')"
proof -
  from assms(4,5) obtain k1 where k1: "save_yielder b k c = Some k1"
    by (auto simp: save_yielder_def Let_def)
  obtain d img where x: "x = (d, img)"
    by (cases x)
  define s where "s = csa k1 (csavail k1 - 1) AND SIZE_MASK"
  define r where "r = rsp c - (sint s + EXTRA_STACK)"
  have "images (k1\<lparr>v_size := s, v_RSP := r\<rparr>) = Some ((d, img) # q @ [saved_entry b k c])"
    using images_save_yielder [OF k1 assms(2)] by (simp add: x saved_entry_def)
  moreover have "restorable (d, img)"
    using assms(3) by (simp add: x)
  ultimately obtain k' c' where
    "popCoroutine b (k1\<lparr>v_size := s, v_RSP := r\<rparr>) (c\<lparr>rsp := r\<rparr>) = Some (k', c')"
    using popCoroutine_defined by blast
  then show ?thesis
    using assms(1) k1 by (simp add: coresume_def Let_def s_def r_def)
qed






subsection \<open>What a switch restores\<close>

definition resume_header :: "build \<Rightarrow> int" where
  "resume_header b = (case abi b of MacOS \<Rightarrow> 4 | Cygwin \<Rightarrow> 6 + 4)"

lemma sint_nonneg_uint:
  fixes w :: long
  assumes "\<not> bit w 63"
  shows "sint w = uint w"
proof -
  have "take_bit 63 w = w"
  proof (rule bit_word_eqI)
    fix n assume "n < LENGTH(64)"
    then have "n < 63 \<or> n = 63"
      by auto
    then show "bit (take_bit 63 w) n \<longleftrightarrow> bit w n"
      using assms by (auto simp: bit_simps)
  qed
  then have "uint w = take_bit 63 (uint w)"
    by (metis unsigned_take_bit_eq)
  then have "uint w < 2 ^ 63"
    by (metis take_bit_int_less_exp)
  moreover have "- (2 ^ 63) \<le> uint w"
    by (rule order_trans [of _ 0]) simp_all
  ultimately have "signed_take_bit 63 (uint w) = uint w"
    by (rule signed_take_bit_int_eq_self [rotated])
  then show ?thesis
    by (simp add: sint_uint)
qed

lemma desc_size_sint: "sint (desc_size d) = int (unat (desc_size d))"
proof (cases "d <s 0")
  case True
  have "\<not> bit (d AND SIZE_MASK) 63"
    by (simp add: SIZE_MASK_mask bit_simps)
  with True show ?thesis
    by (simp add: desc_size_def sint_nonneg_uint)
next
  case False
  then have "\<not> bit d 63"
    using bit_last_iff [of d] by (simp add: word_sless_alt)
  with False show ?thesis
    by (simp add: desc_size_def sint_nonneg_uint)
qed

lemma popCoroutine_cpu:
  assumes p: "popCoroutine b k c = Some (k', c')"
  defines "L \<equiv> sint (desc_size (csa k (csavail k - 1)))"
  defines "bms \<equiv> base k - L - 2"
  defines "m1 \<equiv> copy_to_stack (mem c) bms (csa k) (int (csavail k')) L"
  shows "rsp c' = bms - MAGIC_OFFSET (abi b) div 8"
    and "x < bms + resume_header b \<or> \<not> csa k (csavail k - 1) <s 0 \<Longrightarrow> mem c' x = m1 x"
proof -
  define d where "d = csa k (csavail k - 1)"
  define S where "S = desc_size d"
  define A where "A = csavail k - 1 - unat S"
  define B where "B = base k - sint S - 2"
  define M1 where "M1 = copy_to_stack (mem c) B (csa k) (int A) (sint S)"
  have sz: "(if d <s 0 then d AND SIZE_MASK else d) = S"
    by (simp add: desc_size_def S_def)
  note pk = popCoroutine_kernel [OF p]
  have av: "csavail k' = A"
    by (simp add: pk(3) A_def S_def d_def)
  have e: "bms = B" "m1 = M1" "L = sint S"
    by (simp_all add: bms_def B_def m1_def M1_def L_def S_def d_def av)
  from p show "rsp c' = bms - MAGIC_OFFSET (abi b) div 8"
    unfolding popCoroutine_def Let_def d_def [symmetric] sz B_def [symmetric] e
    by (auto split: if_splits)
  assume "x < bms + resume_header b \<or> \<not> csa k (csavail k - 1) <s 0"
  then have x: "x < B + (case abi b of MacOS \<Rightarrow> 4 | Cygwin \<Rightarrow> 6 + 4) \<or> \<not> d <s 0"
    by (simp add: e resume_header_def d_def)
  from p x show "mem c' x = m1 x"
    unfolding popCoroutine_def Let_def d_def [symmetric] sz A_def [symmetric] B_def [symmetric]
      M1_def [symmetric] e
    by (auto split: if_splits simp: copy_to_stack_miss)
qed


lemma epilogue_rbp:
  "rbp (popCoroutine_epilogue b c)
     = ptr_of_long (mem c (rsp c + MAGIC_OFFSET (abi b) div 8 + saved_regs (abi b)))"
  by (simp add: popCoroutine_epilogue_def ret_def pop_rbp_def)

text \<open>
  The processor state \<open>cr\<close> in which a coroutine continues after the epilogue of
  \<^verbatim>\<open>popCoroutine\<close> has the image \<open>img\<close> with the size word \<open>d\<close> on the stack below \<open>bs - 2\<close>,
  \<open>bs\<close> being \<^verbatim>\<open>base\<close>: the epilogue has popped the saved registers and the frame pointer off
  the image and has returned to the address that follows them. Of an image that has not run
  yet the words of the arguments may have moved (see \<open>virgin_restore_arguments\<close>); the header
  is in its place.
\<close>

definition resumes :: "build \<Rightarrow> addr \<Rightarrow> cpu \<Rightarrow> long \<times> long list \<Rightarrow> bool" where
  "resumes b bs cr = (\<lambda>(d, img).
     rip cr = img ! nat (saved_regs (abi b) + 1)
   \<and> rbp cr = ptr_of_long (img ! nat (saved_regs (abi b)))
   \<and> rsp cr = bs - 2 - int (length img) + saved_regs (abi b) + 2
   \<and> (\<forall>j < length img. int j < resume_header b \<or> \<not> d <s 0
          \<longrightarrow> mem cr (bs - 2 - int (length img) + int j) = img ! j))"

lemma pop_resumes:
  assumes p: "popCoroutine b k c = Some (k', c')"
    and i: "images k = Some (x # q)"
    and len: "nat (saved_regs (abi b)) + 2 \<le> length (snd x)"
  shows "resumes b (base k) (popCoroutine_epilogue b c') x"
proof -
  obtain d img where x: "x = (d, img)"
    by (cases x)
  note ip = images_pop [OF i p]
  note pk = popCoroutine_kernel [OF p]
  note pc = popCoroutine_keeps [OF p]
  have d: "csa k (csavail k - 1) = d" and img: "img = popped_image k'"
    using ip(3) by (simp_all add: x)
  have d': "csa k (csavail k - Suc 0) = d"
    using d by simp
  have vs: "v_size k' = desc_size d"
    by (simp add: pk(3) d')
  have l: "length img = unat (desc_size d)"
    by (simp add: img popped_image_def vs)
  have L: "sint (desc_size (csa k (csavail k - 1))) = int (length img)"
    by (simp add: d' desc_size_sint l)
  have n: "img ! j = csa k (csavail k' + j)" if "j < length img" for j
    using that by (simp add: img popped_image_def vs pc(5) l)
  let ?bms = "base k - int (length img) - 2"
  note cpu = popCoroutine_cpu [OF p, unfolded L]
  have m: "mem c' (?bms + int j) = img ! j"
    if "j < length img" "int j < resume_header b \<or> \<not> d <s 0" for j
  proof -
    have "mem c' (?bms + int j)
        = copy_to_stack (mem c) ?bms (csa k) (int (csavail k')) (int (length img)) (?bms + int j)"
      using that(2) by (intro cpu(2)) (simp add: d')
    also have "\<dots> = csa k (nat (int (csavail k') + int j))"
      using that(1) by (intro copy_to_stack_hit) simp_all
    also have "\<dots> = img ! j"
      using that(1) by (simp add: n nat_add_distrib)
    finally show ?thesis .
  qed
  have h: "saved_regs (abi b) + 1 < resume_header b" "0 \<le> saved_regs (abi b)"
    by (cases "abi b"; simp add: resume_header_def)+
  have j1: "nat (saved_regs (abi b) + 1) < length img" "nat (saved_regs (abi b)) < length img"
    using len h(2) by (simp_all add: x)
  have "rip (popCoroutine_epilogue b c') = mem c' (?bms + int (nat (saved_regs (abi b) + 1)))"
    using h(2) by (simp add: epilogue_fields cpu(1))
  also have "\<dots> = img ! nat (saved_regs (abi b) + 1)"
    using j1(1) h by (intro m) simp_all
  finally have 1: "rip (popCoroutine_epilogue b c') = img ! nat (saved_regs (abi b) + 1)" .
  have "rbp (popCoroutine_epilogue b c')
      = ptr_of_long (mem c' (?bms + int (nat (saved_regs (abi b)))))"
    using h(2) by (simp add: epilogue_rbp cpu(1))
  also have "mem c' (?bms + int (nat (saved_regs (abi b)))) = img ! nat (saved_regs (abi b))"
    using j1(2) h by (intro m) simp_all
  finally have 2: "rbp (popCoroutine_epilogue b c') = ptr_of_long (img ! nat (saved_regs (abi b)))" .
  have 3: "rsp (popCoroutine_epilogue b c')
      = base k - 2 - int (length img) + saved_regs (abi b) + 2"
    by (simp add: epilogue_fields cpu(1))
  have 4: "mem (popCoroutine_epilogue b c') (base k - 2 - int (length img) + int j) = img ! j"
    if "j < length img" "int j < resume_header b \<or> \<not> d <s 0" for j
    using m [OF that] by (simp add: epilogue_fields algebra_simps)
  from 1 2 3 4 show ?thesis
    by (simp add: resumes_def x)
qed


text \<open>
  Coroutines that keep yielding. \<open>body\<close> is what a coroutine does between the state in which
  it continues and the state, inside \<^verbatim>\<open>coresume\<close>, of its next yield. \<open>keep_yielding\<close> runs
  \<open>n\<close> yields from the state \<open>c\<close> of a first one: after each switch the coroutine that was
  restored continues behind the epilogue of \<^verbatim>\<open>popCoroutine\<close> and is the next to yield. The
  result lists, for every switch, the state of the coroutine that yielded and the state in
  which the next one continued. With a single coroutine \<^verbatim>\<open>coresume\<close> returns to its caller and
  there is no switch.
\<close>

fun keep_yielding ::
  "build \<Rightarrow> (cpu \<Rightarrow> cpu) \<Rightarrow> nat \<Rightarrow> kernel \<Rightarrow> cpu \<Rightarrow> ((cpu \<times> cpu) list \<times> kernel \<times> cpu) option" where
  "keep_yielding b body 0 k c = Some ([], k, c)"
| "keep_yielding b body (Suc n) k c =
     (case coresume b k c of
        None \<Rightarrow> None
      | Some (Returns k' c') \<Rightarrow> Some ([], k', c')
      | Some (Switches k' c') \<Rightarrow>
          map_option (\<lambda>(tr, s). ((c, popCoroutine_epilogue b c') # tr, s))
            (keep_yielding b body n k' (body (popCoroutine_epilogue b c'))))"

lemma saved_regs_nonneg: "0 \<le> saved_regs pl"
  by (cases pl) simp_all

lemma coresume_parts:
  assumes "1 < coroutineCount k" and "coresume b k c = Some out"
  shows "\<exists>k1 s r k' c'. save_yielder b k c = Some k1
     \<and> popCoroutine b (k1\<lparr>v_size := s, v_RSP := r\<rparr>) (c\<lparr>rsp := r\<rparr>) = Some (k', c')
     \<and> out = Switches k' c'"
  using assms by (auto simp: coresume_def Let_def split: option.splits)

lemma coresume_resumes:
  assumes "1 < coroutineCount k" and "images k = Some q"
    and "coresume b k c = Some out"
    and "\<forall>x \<in> set q. nat (saved_regs (abi b)) + 2 \<le> length (snd x)"
    and "saved_regs (abi b) + 2 \<le> yielder_size b k c"
  shows "\<exists>k' c'. out = Switches k' c'
     \<and> images k' = Some (tl (q @ [saved_entry b k c]))
     \<and> resumes b (base k) (popCoroutine_epilogue b c') (hd (q @ [saved_entry b k c]))
     \<and> base k' = base k \<and> coroutineCount k' = coroutineCount k"
proof -
  from coresume_parts [OF assms(1,3)] obtain k1 s r k' c' where
    k1: "save_yielder b k c = Some k1"
    and p: "popCoroutine b (k1\<lparr>v_size := s, v_RSP := r\<rparr>) (c\<lparr>rsp := r\<rparr>) = Some (k', c')"
    and out: "out = Switches k' c'"
    by blast
  let ?Q = "q @ [saved_entry b k c]"
  have i: "images (k1\<lparr>v_size := s, v_RSP := r\<rparr>) = Some (hd ?Q # tl ?Q)"
    using images_save_yielder [OF k1 assms(2)] by (simp add: saved_entry_def)
  have "nat (saved_regs (abi b)) + 2 \<le> length (snd (saved_entry b k c))"
    using assms(5) saved_regs_nonneg [of "abi b"] by (simp add: saved_entry_def)
  with assms(4) have "\<forall>x \<in> set ?Q. nat (saved_regs (abi b)) + 2 \<le> length (snd x)"
    by simp
  then have len: "nat (saved_regs (abi b)) + 2 \<le> length (snd (hd ?Q))"
    by (metis hd_in_set snoc_eq_iff_butlast)
  from pop_resumes [OF p i len] save_yielder_eq(4) [OF k1]
  have "resumes b (base k) (popCoroutine_epilogue b c') (hd ?Q)"
    by simp
  with coresume_switch [OF assms(1,2,3)] out show ?thesis
    by auto
qed

lemma keep_yielding_fifo:
  assumes "keep_yielding b body n k c = Some (tr, kf, cf)"
    and "1 < coroutineCount k" and "images k = Some q"
    and "\<forall>x \<in> set q. nat (saved_regs (abi b)) + 2 \<le> length (snd x)"
    and "\<forall>y \<in> set tr. saved_regs (abi b) + 2 \<le> yielder_size b k (fst y)"
  shows "length tr = n
     \<and> images kf = Some (drop n (q @ map (saved_entry b k \<circ> fst) tr))
     \<and> (\<forall>j < n. resumes b (base k) (snd (tr ! j)) ((q @ map (saved_entry b k \<circ> fst) tr) ! j))
     \<and> (\<forall>y \<in> set tr. yielder_size b k (fst y) \<le> int CSA_SIZE)"
  using assms
proof (induction n arbitrary: k c q tr)
  case 0
  then show ?case
    by simp
next
  case (Suc n)
  from Suc.prems(1) obtain out where o: "coresume b k c = Some out"
    by (auto split: option.splits)
  from coresume_switch [OF Suc.prems(2,3) o] obtain k' c' where
    out: "out = Switches k' c'"
    by blast
  let ?c1 = "popCoroutine_epilogue b c'"
  from Suc.prems(1) o out obtain tr' where
    tr: "tr = (c, ?c1) # tr'"
    and run: "keep_yielding b body n k' (body ?c1) = Some (tr', kf, cf)"
    by auto
  have fr: "saved_regs (abi b) + 2 \<le> yielder_size b k c"
    using Suc.prems(5) by (simp add: tr)
  from coresume_parts [OF Suc.prems(2) o] have bd: "yielder_size b k c \<le> int CSA_SIZE"
    by (auto simp: save_yielder_def Let_def split: if_splits)
  let ?Q = "q @ [saved_entry b k c]"
  from coresume_resumes [OF Suc.prems(2,3) o Suc.prems(4) fr] out have
    k': "images k' = Some (tl ?Q)" "resumes b (base k) ?c1 (hd ?Q)"
      "base k' = base k" "coroutineCount k' = coroutineCount k"
    by auto
  have se: "saved_entry b k' = saved_entry b k"
    by (rule ext) (simp add: yielder_base [OF k'(3)])
  have ys: "yielder_size b k' y = yielder_size b k y" for y
    by (simp add: yielder_size_def k'(3))
  have "nat (saved_regs (abi b)) + 2 \<le> length (snd (saved_entry b k c))"
    using fr saved_regs_nonneg [of "abi b"] by (simp add: saved_entry_def)
  with Suc.prems(4) have "\<forall>x \<in> set ?Q. nat (saved_regs (abi b)) + 2 \<le> length (snd x)"
    by simp
  then have w': "\<forall>x \<in> set (tl ?Q). nat (saved_regs (abi b)) + 2 \<le> length (snd x)"
    by (metis list.set_sel(2) snoc_eq_iff_butlast)
  have f': "\<forall>y \<in> set tr'. saved_regs (abi b) + 2 \<le> yielder_size b k' (fst y)"
    using Suc.prems(5) by (simp add: tr ys)
  have c': "1 < coroutineCount k'"
    using Suc.prems(2) k'(4) by simp
  note ih = Suc.IH [OF run c' k'(1) w' f', unfolded se k'(3) ys]
  have Q: "q @ map (saved_entry b k \<circ> fst) tr
      = hd ?Q # (tl ?Q @ map (saved_entry b k \<circ> fst) tr')"
    by (cases q) (simp_all add: tr)
  show ?case
    unfolding Q using ih k'(2) bd
    by (auto simp: tr nth_Cons comp_def split: nat.splits)
qed


lemma keep_yielding_chain:
  assumes "keep_yielding b body n k c = Some (tr, kf, cf)"
  shows "(tr \<noteq> [] \<longrightarrow> fst (hd tr) = c)
     \<and> (\<forall>j. Suc j < length tr \<longrightarrow> fst (tr ! Suc j) = body (snd (tr ! j)))"
  using assms
proof (induction n arbitrary: k c tr)
  case 0
  then show ?case
    by simp
next
  case (Suc n)
  show ?case
  proof (cases "coresume b k c")
    case None
    with Suc.prems show ?thesis
      by simp
  next
    case (Some out)
    show ?thesis
    proof (cases out)
      case (Returns k' c')
      with Some Suc.prems show ?thesis
        by simp
    next
      case (Switches k' c')
      with Some Suc.prems obtain tr' where
        tr: "tr = (c, popCoroutine_epilogue b c') # tr'"
        and run: "keep_yielding b body n k' (body (popCoroutine_epilogue b c'))
            = Some (tr', kf, cf)"
        by auto
      from Suc.IH [OF run] show ?thesis
        by (cases tr') (auto simp: tr nth_Cons split: nat.splits)
    qed
  qed
qed

text \<open>
  The coroutine that called \<^verbatim>\<open>coresume\<close> in the state \<open>cy\<close> continues in the state \<open>cr\<close>: behind
  its call, with its frame pointer and with its stack as it was, from the first word that
  \<^verbatim>\<open>coresume\<close> stored up to \<open>bs - 2\<close>.
\<close>

definition continues :: "build \<Rightarrow> addr \<Rightarrow> cpu \<Rightarrow> cpu \<Rightarrow> bool" where
  "continues b bs cy cr \<longleftrightarrow>
     rip cr = mem cy (yielder_BPX b cy + saved_regs (abi b) + 1)
   \<and> rbp cr = ptr_of_long (mem cy (yielder_BPX b cy + saved_regs (abi b)))
   \<and> rsp cr = yielder_BPX b cy + saved_regs (abi b) + 2
   \<and> (\<forall>x. yielder_BPX b cy \<le> x \<and> x < bs - 2 \<longrightarrow> mem cr x = mem cy x)"

lemma saved_not_virgin:
  assumes "0 \<le> n" and "n \<le> int CSA_SIZE"
  shows "\<not> (word_of_int n :: long) <s 0"
proof -
  have "n < 2 ^ 63"
    using assms(2) by (simp add: CSA_SIZE_def)
  then have "sint (word_of_int n :: long) = n"
    using assms(1) by (simp add: sint_uint uint_word_of_int_eq signed_take_bit_int_eq_self
        take_bit_int_eq_self)
  with assms(1) show ?thesis
    by (simp add: word_sless_alt)
qed

lemma resumes_saved:
  assumes r: "resumes b (base k) cr (saved_entry b k cy)"
    and lo: "saved_regs (abi b) + 2 \<le> yielder_size b k cy"
    and hi: "yielder_size b k cy \<le> int CSA_SIZE"
  shows "continues b (base k) cy cr"
proof -
  let ?B = "yielder_BPX b cy"
  let ?s = "yielder_size b k cy"
  let ?img = "yielder_frame b k cy"
  note s0 = saved_regs_nonneg [of "abi b"]
  have len: "int (length ?img) = ?s"
    using lo s0 by simp
  have bs: "base k - 2 - int (length ?img) = ?B"
    unfolding len by (simp add: yielder_size_def)
  have nth: "?img ! j = mem cy (?B + int j)" if "j < length ?img" for j
    using that by (simp add: yielder_frame_def)
  have nv: "\<not> (word_of_int ?s :: long) <s 0"
    using lo s0 hi by (intro saved_not_virgin) simp_all
  from r have R: "rip cr = ?img ! nat (saved_regs (abi b) + 1)
      \<and> rbp cr = ptr_of_long (?img ! nat (saved_regs (abi b)))
      \<and> rsp cr = base k - 2 - int (length ?img) + saved_regs (abi b) + 2
      \<and> (\<forall>j < length ?img. int j < resume_header b \<or> \<not> (word_of_int ?s :: long) <s 0
            \<longrightarrow> mem cr (base k - 2 - int (length ?img) + int j) = ?img ! j)"
    unfolding resumes_def saved_entry_def prod.case .
  then have 1: "rip cr = ?img ! nat (saved_regs (abi b) + 1)"
    and 2: "rbp cr = ptr_of_long (?img ! nat (saved_regs (abi b)))"
    by blast+
  from R have 3: "rsp cr = ?B + saved_regs (abi b) + 2"
    unfolding bs by blast
  from R nv have 4: "\<forall>j < length ?img. mem cr (?B + int j) = ?img ! j"
    unfolding bs by blast
  have j1: "nat (saved_regs (abi b) + 1) < length ?img" "nat (saved_regs (abi b)) < length ?img"
    using lo s0 len by linarith+
  have "mem cr x = mem cy x" if "?B \<le> x" "x < base k - 2" for x
  proof -
    have j: "nat (x - ?B) < length ?img"
      using that len by (simp add: yielder_size_def)
    from 4 j have "mem cr (?B + int (nat (x - ?B))) = ?img ! nat (x - ?B)"
      by blast
    with nth [OF j] that(1) show ?thesis
      by simp
  qed
  with 1 2 3 nth [OF j1(1)] nth [OF j1(2)] s0 show ?thesis
    by (simp add: continues_def add.assoc)
qed

lemma pop_live:
  assumes p: "popCoroutine b k c = Some (k', c')"
  shows "live k = live k' @ popped_image k' @ [csa k (csavail k - 1)]"
proof -
  let ?d = "csa k (csavail k - 1)"
  let ?s = "unat (desc_size ?d)"
  let ?m = "csavail k - 1 - ?s"
  note pk = popCoroutine_kernel [OF p]
  have "[csavail k - 1..<csavail k] = [csavail k - 1]"
    using pk(1) by (cases "csavail k") simp_all
  then have "live k = map (csa k) [0..<csavail k - 1] @ [?d]"
    using live_split [of "csavail k - 1" k] by simp
  also have "[0..<csavail k - 1] = [0..<?m] @ [?m..<csavail k - 1]"
    by (metis diff_le_self upt_add_eq_append le_add_diff_inverse le0)
  finally have l: "live k = map (csa k) [0..<?m] @ map (csa k) [?m..<csavail k - 1] @ [?d]"
    by simp
  have "?m + ?s = csavail k - 1"
    using pk(2) by arith
  then have "popped_image k' = map (csa k) [?m..<csavail k - 1]"
    by (simp add: pk(3) popped_image_def del: One_nat_def)
  moreover have "live k' = map (csa k) [0..<?m]"
    by (simp add: pk(3) live_def)
  ultimately show ?thesis
    using l by simp
qed

lemma coresume_csa:
  assumes "1 < coroutineCount k" and "coresume b k c = Some (Switches k' c')"
  shows "\<exists>d. live k' @ popped_image k' @ [d]
     = yielder_frame b k c @ [word_of_int (yielder_size b k c)] @ live k"
proof -
  from coresume_parts [OF assms] obtain k1 s r where
    k1: "save_yielder b k c = Some k1"
    and p: "popCoroutine b (k1\<lparr>v_size := s, v_RSP := r\<rparr>) (c\<lparr>rsp := r\<rparr>) = Some (k', c')"
    by auto
  from pop_live [OF p] save_yielder_eq(2) [OF k1] show ?thesis
    by (intro exI [of _ "csa k1 (csavail k1 - 1)"]) simp
qed



subsection \<open>Three coroutines that keep yielding\<close>

text \<open>
  A coroutine that calls \<^verbatim>\<open>coresume\<close> as soon as it has the processor, in a loop: the call
  pushes the return address, which is the address where the coroutine continued with the bit
  \<^verbatim>\<open>0x100\<close> set, and the prologue of \<^verbatim>\<open>coresume\<close> pushes the frame pointer, sets it to the
  stack pointer and moves the stack pointer down.
\<close>

definition yield_again :: "cpu \<Rightarrow> cpu" where
  "yield_again x =
     x\<lparr>rsp := rsp x - 6, rbp := rsp x - 2,
       mem := (mem x)(rsp x - 1 := rip x OR 0x100, rsp x - 2 := long_of_ptr (rbp x))\<rparr>"

lemma cobegin_parts:
  assumes "cobegin b n va bp k c = Some (Switches k' c')"
  shows "\<exists>k3 va' s r.
      cobegin_loop b n va
        (case abi b of
           Cygwin \<Rightarrow> (setBase b bp c k)\<lparr>COBEGIN_EPILOG :=
                        rsp c + (COBEGIN_STACK_ADJUST - CLEANUP_STACK_ADJUST) div 8\<rparr>
         | MacOS \<Rightarrow> setBase b bp c k) = Some (k3, va')
    \<and> popCoroutine b (k3\<lparr>v_size := s, v_RSP := r\<rparr>) (c\<lparr>rsp := r\<rparr>) = Some (k', c')"
  using assms by (auto simp: cobegin_def Let_def split: option.splits if_splits) blast

lemma cobegin_resumes:
  assumes "csavail k = 0" and "coroutineCount k = 0"
    and "\<forall>(e, args) \<in> set es. length args \<le> 127" and "length args \<le> 127"
    and "total_words b (es @ [(e, args)]) \<le> CSA_SIZE"
  shows "\<exists>k' c'. cobegin b (int (length (es @ [(e, args)]))) (va_entries (es @ [(e, args)])) bp k c
       = Some (Switches k' c')
     \<and> images k' = Some (rev (map (entry_image b bp) es))
     \<and> resumes b bp (popCoroutine_epilogue b c') (entry_image b bp (e, args))
     \<and> base k' = bp \<and> coroutineCount k' = int (length es) + 1"
proof -
  let ?es = "es @ [(e, args)]"
  define k2 where "k2 = (case abi b of
      Cygwin \<Rightarrow> (setBase b bp c k)\<lparr>COBEGIN_EPILOG :=
                   rsp c + (COBEGIN_STACK_ADJUST - CLEANUP_STACK_ADJUST) div 8\<rparr>
    | MacOS \<Rightarrow> setBase b bp c k)"
  have ok: "\<forall>(e, args) \<in> set ?es. length args \<le> 127"
    using assms(3,4) by simp
  have "int (length ?es) \<le> INT_MAX"
    using length_le_total_words [of ?es b] assms(5) by (simp add: INT_MAX_def CSA_SIZE_def)
  with cobegin_starts [of k es e args b bp c] assms obtain k' c' where
    co: "cobegin b (int (length ?es)) (va_entries ?es) bp k c = Some (Switches k' c')"
    and f: "base k' = bp" "coroutineCount k' = int (length es) + 1"
    by auto
  have i0: "images k = Some []"
    using assms(1) by (simp add: images_def live_def)
  from cobegin_outcome [OF ok i0 co] have i: "images k' = Some (rev (map (entry_image b bp) es))"
    by auto
  have k2: "images k2 = Some []" "base k2 = bp" "csavail k2 = 0" "coroutineCount k2 = 0"
    using i0 assms(1,2) by (cases "abi b"; simp add: k2_def)+
  from cobegin_parts [OF co] obtain k3 va' s r where
    l: "cobegin_loop b (int (length ?es)) (va_entries ?es) k2 = Some (k3, va')"
    and p: "popCoroutine b (k3\<lparr>v_size := s, v_RSP := r\<rparr>) (c\<lparr>rsp := r\<rparr>) = Some (k', c')"
    unfolding k2_def by blast
  from l cobegin_loop_entries [OF ok, of b "[]" k2] have k3: "k3 = spawn_all b ?es k2"
    by (auto split: if_splits)
  have "images (k3\<lparr>v_size := s, v_RSP := r\<rparr>)
      = Some (entry_image b bp (e, args) # rev (map (entry_image b bp) es))"
    using images_spawn_all [OF k2(1), of b ?es] assms(5) by (simp add: k3 k2)
  moreover have "nat (saved_regs (abi b)) + 2 \<le> length (snd (entry_image b bp (e, args)))"
    by (cases "abi b")
      (simp_all add: entry_image_def length_virgin_image_words image_words_def)
  ultimately have "resumes b (base (k3\<lparr>v_size := s, v_RSP := r\<rparr>)) (popCoroutine_epilogue b c')
      (entry_image b bp (e, args))"
    by (intro pop_resumes [OF p]) simp_all
  then have "resumes b bp (popCoroutine_epilogue b c') (entry_image b bp (e, args))"
    by (simp add: k3 k2)
  with co i f show ?thesis
    by blast
qed

lemma yield_again_frame:
  assumes "rsp x = 95" and "base k = 100"
  shows "yielder_size macos_build k (yield_again x) = 6"
    and "rbp (yield_again x) = 93"
    and "mem (yield_again x) 94 = rip x OR 0x100"
  using assms
  by (simp_all add: yield_again_def yielder_size_def yielder_BPX_def macos_build_def)

lemma yield_again_run:
  assumes "coroutineCount k = 3" and "images k = Some q" and "length q = 2"
    and "\<forall>i \<in> set q. length (snd i) = 6 \<and> restorable i"
    and "base k = 100" and "rsp x = 95"
  shows "\<exists>tr kf cf. keep_yielding macos_build yield_again n k (yield_again x) = Some (tr, kf, cf)
     \<and> (\<forall>y \<in> set tr. rbp (fst y) = 93 \<and> rsp (snd y) = 95)"
  using assms
proof (induction n arbitrary: k q x)
  case 0
  then show ?case
    by simp
next
  case (Suc n)
  let ?b = macos_build
  let ?c = "yield_again x"
  note fr = yield_again_frame [OF Suc.prems(6,5)]
  from Suc.prems(3) obtain i1 i2 where q: "q = [i1, i2]"
    by (auto simp: length_Suc_conv numeral_2_eq_2)
  have sr: "saved_regs (abi ?b) = 1"
    by (simp add: macos_build_def)
  have "(\<Sum>(d, img)\<leftarrow>q. length img + 1) = length (rev (live k))"
    using Suc.prems(2) unfolding images_def by (rule parse_down_sum)
  then have av: "csavail k = 14"
    using Suc.prems(4) by (auto simp: q length_live split: prod.splits)
  have "\<exists>k' c'. coresume ?b k ?c = Some (Switches k' c')"
    using Suc.prems(1,2,4) fr(1) av
    by (intro coresume_defined [of k i1 "[i2]"]) (simp_all add: q CSA_SIZE_def)
  then obtain k' c' where o: "coresume ?b k ?c = Some (Switches k' c')"
    by blast
  let ?cr = "popCoroutine_epilogue ?b c'"
  let ?se = "saved_entry ?b k ?c"
  have c1: "1 < coroutineCount k"
    using Suc.prems(1) by simp
  have w: "\<forall>i \<in> set q. nat (saved_regs (abi ?b)) + 2 \<le> length (snd i)"
    using Suc.prems(4) by (simp add: sr)
  have f: "saved_regs (abi ?b) + 2 \<le> yielder_size ?b k ?c"
    by (simp add: sr fr)
  from coresume_resumes [OF c1 Suc.prems(2) o w f] have
    k': "images k' = Some [i2, ?se]" "resumes ?b (base k) ?cr i1"
      "base k' = 100" "coroutineCount k' = 3"
    using Suc.prems(1,5) by (simp_all add: q)
  have r: "rsp ?cr = 95"
    using k'(2) Suc.prems(4,5) by (cases i1) (simp add: resumes_def q sr)
  from coresume_parts [OF c1 o] obtain k1 where "save_yielder ?b k ?c = Some k1"
    by blast
  then have "restorable ?se"
    by (rule restorable_saved)
  moreover have "length (snd ?se) = 6"
    by (simp add: saved_entry_def fr)
  ultimately have w': "\<forall>i \<in> set [i2, ?se]. length (snd i) = 6 \<and> restorable i"
    using Suc.prems(4) by (simp add: q)
  from Suc.IH [OF k'(4) k'(1) _ w' k'(3) r] obtain tr kf cf where
    "keep_yielding ?b yield_again n k' (yield_again ?cr) = Some (tr, kf, cf)"
    "\<forall>y \<in> set tr. rbp (fst y) = 93 \<and> rsp (snd y) = 95"
    by auto
  with o fr(2) r show ?case
    by simp
qed

text \<open>A kernel inside a ring of two: one image of two words is stored, the other coroutine
  runs with its frame pointer at 100.\<close>

definition yield_kernel :: kernel where
  "yield_kernel = csa_append (kernel_init\<lparr>base := 100, coroutineCount := 2\<rparr>) [0x11, 0x22, 2]"

section \<open>Properties of the kernel\<close>

text \<open>
  C8. With \<^verbatim>\<open>coroutineCount\<close> at most 1, \<^verbatim>\<open>coresume\<close> returns to its caller without a
  context switch: the module variables (the contents of the CSA, \<^verbatim>\<open>csavail\<close>,
  \<^verbatim>\<open>coroutineCount\<close>) and the processor state are the ones it was called with.
\<close>

theorem coresume_noop:
  "coroutineCount k \<le> 1 \<Longrightarrow> coresume b k c = Some (Returns k c)"
  by (simp add: coresume_def)

theorem coresume_noop_witness:
  "coroutineCount (kernel_init\<lparr>coroutineCount := 1\<rparr>) \<le> 1
   \<and> coresume macos_build (kernel_init\<lparr>coroutineCount := 1\<rparr>) (cpu_at 900 910 (\<lambda>a. 0))
       = Some (Returns (kernel_init\<lparr>coroutineCount := 1\<rparr>) (cpu_at 900 910 (\<lambda>a. 0)))"
  using coresume_noop [of "kernel_init\<lparr>coroutineCount := 1\<rparr>" macos_build "cpu_at 900 910 (\<lambda>a. 0)"]
  by simp

text \<open>
  What a spawn stores when its argument count is between 0 and 127: \<^verbatim>\<open>invoke\<close> and one turn
  of the loop of \<^verbatim>\<open>cobegin\<close> store the same image and after it a size word. The image is the
  header, the arguments and the filler: two filler words for no argument, one for an odd
  count, none for a positive even count. The low 56 bits of the size word are the number of
  words of the image and its high byte is \<^verbatim>\<open>0x80 | argc\<close>.
\<close>

lemma spawn_small_count:
  assumes "length args \<le> 127"
    and "csavail k + length (virgin_image b (base k) e args) + 1 \<le> CSA_SIZE"
    and "coroutineCount k < INT_MAX"
  shows "\<exists>k' img d.
      invoke b e (int (length args)) (args @ rest) k = Some k'
    \<and> cobegin_entry b (e # word_of_nat (length args) # args @ rest) k = Some (k', rest)
    \<and> live k' = live k @ img @ [d]
    \<and> img = image_header b (base k) e @ args @ replicate (filler_words (length args)) FILLER_VALUE
    \<and> d AND SIZE_MASK = word_of_nat (length img)
    \<and> drop_bit 56 d = 0x80 OR word_of_nat (length args)"
proof -
  let ?img = "virgin_image b (base k) e args"
  let ?d = "virgin_descriptor (length ?img) (int (length args))"
  have s: "length ?img < 2 ^ 56"
    using assms(2) by (intro CSA_SIZE_small) simp
  have i: "invoke b e (int (length args)) (args @ rest) k = Some (spawned b e args (int (length args)) k)"
    using assms by (simp add: invoke_eq)
  have c: "cobegin_entry b (e # word_of_nat (length args) # args @ rest) k
             = Some (spawned b e args (int (length args)) k, rest)"
    using assms by (simp add: cobegin_entry_eq int8_of_count)
  have l: "live (spawned b e args (int (length args)) k) = live k @ ?img @ [?d]"
    by (simp add: spawned_def)
  have "?d AND SIZE_MASK = word_of_nat (length ?img)"
    by (rule virgin_descriptor_size [OF s])
  moreover have "drop_bit 56 ?d = 0x80 OR word_of_nat (length args)"
    by (simp add: virgin_descriptor_high [OF s] mark_byte_count [OF assms(1)])
  ultimately show ?thesis
    using i c l by (auto simp: virgin_image_def)
qed

lemma spawn_three_arguments:
  "length [1, 2, 3 :: long] \<le> 127
   \<and> (\<exists>k' img d.
        invoke macos_build 0xA 3 [1, 2, 3] kernel_init = Some k'
      \<and> cobegin_entry macos_build [0xA, 3, 1, 2, 3] kernel_init = Some (k', [])
      \<and> live k' = img @ [d]
      \<and> img = [0, 0, 0xA, 0x100009, 1, 2, 3, FILLER_VALUE]
      \<and> d AND SIZE_MASK = 8
      \<and> drop_bit 56 d = 0x83)"
  using spawn_small_count [where args = "[1, 2, 3]" and k = kernel_init and b = macos_build
      and e = "0xA" and rest = "[]"]
  by (simp add: virgin_image_def image_header_def filler_words_def macos_build_def
      kernel_init_def CSA_SIZE_def INT_MAX_def live_def long_of_ptr_def)

text \<open>
  C5. A spawn stores an image whose size word holds the number of words of the image in its
  low 56 bits and \<^verbatim>\<open>0x80 | argc\<close> in its high byte. The loop of \<^verbatim>\<open>cobegin\<close> does not do so
  for 128 arguments: its \<^verbatim>\<open>int8_t\<close> variable holds -128, no argument is stored, and the size
  word of the four words of the image is \<^verbatim>\<open>0xFFFFFFFFFFFFFF84\<close>. \<^verbatim>\<open>invoke\<close>, which keeps the
  count in an \<^verbatim>\<open>int\<close>, stores the 128 arguments of the same call and the size word
  \<^verbatim>\<open>0x8000000000000084\<close> of the 132 words.
\<close>

theorem cobegin_entry_128_arguments:
  "map_option (live \<circ> fst)
     (cobegin_entry macos_build ([0xA, 128] @ replicate 128 7) kernel_init)
     = Some [0, 0, 0xA, 0x100009, 0xFFFFFFFFFFFFFF84]
   \<and> map_option live (invoke macos_build 0xA 128 (replicate 128 7) kernel_init)
     = Some ([0, 0, 0xA, 0x100009] @ replicate 128 7 @ [0x8000000000000084])"
proof -
  have "map_option (live \<circ> fst)
     (cobegin_entry macos_build ([0xA, 128] @ replicate 128 7) kernel_init)
     = Some [0, 0, 0xA, 0x100009, 0xFFFFFFFFFFFFFF84]"
    by (simp add: cobegin_entry_def macos_build_def kernel_init_def push_def va_arg_def
      store_arguments_def marked_size_def incr_count_def INT_MAX_def CSA_SIZE_def live_def
      long_of_ptr_def SIZE_MASK_def)
  moreover have "invoke macos_build 0xA 128 (replicate 128 7) kernel_init
      = Some (spawned macos_build 0xA (replicate 128 7) 128 kernel_init)"
    by (simp add: invoke_eq length_virgin_image image_header_def macos_build_def
        filler_words_def kernel_init_def CSA_SIZE_def INT_MAX_def)
  moreover have "live (spawned macos_build 0xA (replicate 128 7) 128 kernel_init)
      = [0, 0, 0xA, 0x100009] @ replicate 128 7 @ [0x8000000000000084]"
  proof -
    have "live kernel_init = []"
      by (simp add: live_def kernel_init_def)
    then show ?thesis
      by (simp add: spawned_def virgin_image_def image_header_def macos_build_def
          filler_words_def long_of_ptr_def virgin_descriptor_def kernel_init_def)
  qed
  ultimately show ?thesis
    by simp
qed


text \<open>
  The size of the stored image as the specification computes it:
  \<open>(ring_base - 2) - (rbp_live - k)\<close> with \<open>k = 1\<close> on System V and \<open>k = 3\<close> on Windows x64.
\<close>

definition claimed_yield_size :: "build \<Rightarrow> kernel \<Rightarrow> cpu \<Rightarrow> int" where
  "claimed_yield_size b k c =
     (base k - 2) - (rbp c - (case abi b of MacOS \<Rightarrow> 1 | Cygwin \<Rightarrow> 3))"

text \<open>
  C1, amended. A call of \<^verbatim>\<open>coresume\<close> with more than one coroutine stores, at the bottom
  of the CSA, the image of the caller followed by its word count. The count is
  \<open>(base - 2) - _BPX\<close>, where \<^verbatim>\<open>_BPX\<close> is one long below the frame pointer of \<^verbatim>\<open>coresume\<close>
  on macOS and one long above it on Cygwin (the source subtracts \<^verbatim>\<open>-1\<close> there).
\<close>

theorem yielder_image_size:
  assumes "coroutineCount k > 1" and "coresume b k c = Some out"
  shows "\<exists>k1 image.
      save_yielder b k c = Some k1
    \<and> live k1 = image @ [word_of_int (int (length image))] @ live k
    \<and> image = yielder_frame b k c
    \<and> int (length image) =
        (base k - 2) - (case abi b of MacOS \<Rightarrow> rbp c - 1 | Cygwin \<Rightarrow> rbp c + 1)"
proof -
  from assms obtain k1 where k1: "save_yielder b k c = Some k1"
    by (auto simp: coresume_def split: option.splits)
  note s = save_yielder_eq [OF k1]
  have l: "int (length (yielder_frame b k c)) = yielder_size b k c"
    using s(1) by simp
  have e: "yielder_size b k c =
      (base k - 2) - (case abi b of MacOS \<Rightarrow> rbp c - 1 | Cygwin \<Rightarrow> rbp c + 1)"
    by (simp add: yielder_size_def yielder_BPX_def split: platform.splits)
  have "live k1 = yielder_frame b k c @ [word_of_int (int (length (yielder_frame b k c)))] @ live k"
    using s(2) by (simp only: l)
  moreover have "int (length (yielder_frame b k c)) =
      (base k - 2) - (case abi b of MacOS \<Rightarrow> rbp c - 1 | Cygwin \<Rightarrow> rbp c + 1)"
    using l e by (rule trans)
  ultimately show ?thesis
    using k1 by blast
qed

theorem yielder_image_size_witness:
  "1 < coroutineCount yield_kernel
   \<and> (\<exists>k1. save_yielder cygwin_build yield_kernel (cpu_at 80 90 mem_addr) = Some k1
          \<and> live k1 = [91, 92, 93, 94, 95, 96, 97] @ [7] @ [0x11, 0x22, 2])"
proof -
  have c: "1 < coroutineCount yield_kernel"
    by (simp add: yield_kernel_def)
  have "coresume cygwin_build yield_kernel (cpu_at 80 90 mem_addr) \<noteq> None"
    by (simp add: coresume_def save_yielder_def yielder_size_def yielder_BPX_def popCoroutine_def
        yield_kernel_def csa_append_def kernel_init_def cygwin_build_def cpu_at_def CSA_SIZE_def csa_load_def
        csa_move_def SIZE_MASK_def word_sless_alt Let_def)
  then obtain out where "coresume cygwin_build yield_kernel (cpu_at 80 90 mem_addr) = Some out"
    by auto
  from yielder_image_size [OF c this] show ?thesis
    by (auto simp: yielder_frame_def yielder_size_def yielder_BPX_def yield_kernel_def csa_append_def
        kernel_init_def cygwin_build_def cpu_at_def mem_addr_def live_def upt_rec)
qed

text \<open>
  On Cygwin, with \<^verbatim>\<open>base\<close> at 100 and the frame pointer at 90, the stored image has the 7
  words of the addresses 91 to 97, where the formula of the specification gives 11.
\<close>

theorem yielder_image_size_counterexample:
  "map_option live (save_yielder cygwin_build yield_kernel (cpu_at 80 90 mem_addr))
     = Some [91, 92, 93, 94, 95, 96, 97, 7, 0x11, 0x22, 2]
   \<and> claimed_yield_size cygwin_build yield_kernel (cpu_at 80 90 mem_addr) = 11"
  by (simp add: save_yielder_def yielder_size_def cygwin_build_def yield_kernel_def csa_append_def kernel_init_def
      cpu_at_def yielder_BPX_def CSA_SIZE_def live_def csa_load_def csa_move_def mem_addr_def
      upt_rec claimed_yield_size_def)

text \<open>
  C2. \<^verbatim>\<open>popCoroutine\<close> restores a coroutine that \<^verbatim>\<open>invoke\<close> has just stored with \<open>N\<close>
  arguments, \<open>N\<close> at most 127, and its epilogue returns into the entry point with the return
  address of the coroutine, inside \<^verbatim>\<open>cleanup\<close>, on top of the stack. The first
  \<open>min N R\<close> arguments are in the argument registers in the order of the calling
  convention, the other \<open>N - R\<close> lie on the stack above the return slot (on Cygwin above
  the shadow space), so that the entry point finds all \<open>N\<close> arguments in their order.
\<close>

theorem virgin_restore_arguments:
  assumes "length args \<le> 127"
    and "csavail k + image_words b (length args) + 1 \<le> CSA_SIZE"
    and "coroutineCount k < INT_MAX"
  shows "\<exists>k1 k2 c1 c2.
      invoke b e (int (length args)) args k = Some k1
    \<and> popCoroutine b k1 c = Some (k2, c1)
    \<and> c2 = popCoroutine_epilogue b c1
    \<and> rip c2 = e
    \<and> mem c2 (rsp c2) = cleanup_fn b + CLEANUP_OFFSET (abi b)
    \<and> (\<forall>i < min (length args) (nat (IN_REGISTERS_COUNT (abi b))).
          arg_registers (abi b) c2 ! i = args ! i)
    \<and> (\<forall>j < length args - nat (IN_REGISTERS_COUNT (abi b)).
          mem c2 (rsp c2 + 1 + shadow_words (abi b) + int j)
            = args ! (nat (IN_REGISTERS_COUNT (abi b)) + j))
    \<and> (\<forall>i < length args. observed_arg (abi b) c2 i = args ! i)"
proof -
  let ?N = "length args"
  let ?R = "nat (IN_REGISTERS_COUNT (abi b))"
  let ?k1 = "spawned b e args (int ?N) k"
  let ?c1 = "virgin_cpu b ?k1 c (csavail k) ?N"
  let ?c2 = "popCoroutine_epilogue b ?c1"
  have R: "int ?R = IN_REGISTERS_COUNT (abi b)"
    by (cases "abi b") simp_all
  have i: "invoke b e (int ?N) args k = Some ?k1"
    using assms by (simp add: invoke_eq length_virgin_image_words)
  note p = spawned_pop [OF assms(1,2), where e = e and c = c]
  have A: "csa ?k1 (csavail k + i) = virgin_image b (base k) e args ! i"
    if "i < image_words b ?N" for i
    using that by (rule spawned_csa)
  note en = virgin_entry [OF refl A, where c = c]
  have regs: "arg_registers (abi b) ?c2 ! i = args ! i" if "i < min ?N ?R" for i
    unfolding epilogue_fields using A that by (rule virgin_cpu_registers)
  have stk: "mem ?c2 (rsp ?c2 + 1 + shadow_words (abi b) + int j) = args ! (?R + j)"
    if "j < ?N - ?R" for j
  proof -
    have "mem ?c2 (rsp ?c2 + 1 + shadow_words (abi b) + int j) =
        mem ?c1 (base ?k1 - int (image_words b ?N) - 2 + int (header_words b + j))"
      by (simp only: en(3)) (simp add: epilogue_fields(3) add.assoc)
    also have "\<dots> = args ! (?R + j)"
      using A that by (rule virgin_cpu_stack_args)
    finally show ?thesis .
  qed
  have obs: "observed_arg (abi b) ?c2 i = args ! i" if "i < ?N" for i
  proof (cases "i < ?R")
    case True
    then have "int i < IN_REGISTERS_COUNT (abi b)"
      using R by linarith
    moreover have "arg_registers (abi b) ?c2 ! i = args ! i"
      using that True by (intro regs) simp
    ultimately show ?thesis
      by (simp only: observed_arg_def if_True)
  next
    case False
    then have j: "i - ?R < ?N - ?R" "?R + (i - ?R) = i" "int i - IN_REGISTERS_COUNT (abi b) = int (i - ?R)"
      using that R by linarith+
    from False R have "\<not> int i < IN_REGISTERS_COUNT (abi b)"
      by linarith
    then show ?thesis
      using stk [OF j(1)] by (simp only: observed_arg_def if_False j(2,3))
  qed
  from i p en(1,2) regs stk obs show ?thesis
    by blast
qed


theorem virgin_restore_arguments_witness:
  "length [1, 2, 3, 4, 5, 6, 7, 8 :: long] \<le> 127
   \<and> (\<exists>k1 k2 c1 c2.
        invoke cygwin_build 0xB 8 [1, 2, 3, 4, 5, 6, 7, 8] kernel_init = Some k1
      \<and> popCoroutine cygwin_build k1 (cpu_at 900 990 mem_addr) = Some (k2, c1)
      \<and> c2 = popCoroutine_epilogue cygwin_build c1
      \<and> rip c2 = 0xB
      \<and> rcx c2 = 1 \<and> rdx c2 = 2 \<and> r8 c2 = 3 \<and> r9 c2 = 4
      \<and> map (\<lambda>j. mem c2 (rsp c2 + 1 + 4 + j)) [0, 1, 2, 3] = [5, 6, 7, 8]
      \<and> map (observed_arg Cygwin c2) [0, 1, 2, 3, 4, 5, 6, 7] = [1, 2, 3, 4, 5, 6, 7, 8])"
proof -
  let ?args = "[1, 2, 3, 4, 5, 6, 7, 8 :: long]"
  have a: "length ?args \<le> 127"
    by simp
  have r: "csavail kernel_init + image_words cygwin_build (length ?args) + 1 \<le> CSA_SIZE"
    by (simp add: kernel_init_def image_words_def cygwin_build_def filler_words_def CSA_SIZE_def)
  have n: "coroutineCount kernel_init < INT_MAX"
    by (simp add: kernel_init_def INT_MAX_def)
  from virgin_restore_arguments [OF a r n, of "0xB" "cpu_at 900 990 mem_addr"]
  obtain k1 k2 c1 c2 where
    f: "invoke cygwin_build 0xB 8 ?args kernel_init = Some k1"
       "popCoroutine cygwin_build k1 (cpu_at 900 990 mem_addr) = Some (k2, c1)"
       "c2 = popCoroutine_epilogue cygwin_build c1" "rip c2 = 0xB"
    and regs: "\<forall>i<4. arg_registers Cygwin c2 ! i = ?args ! i"
    and stk: "\<forall>j<4. mem c2 (rsp c2 + 1 + 4 + int j) = ?args ! (4 + j)"
    and obs: "\<forall>i<8. observed_arg Cygwin c2 i = ?args ! i"
    by (auto simp: cygwin_build_def)
  from regs have "rcx c2 = 1 \<and> rdx c2 = 2 \<and> r8 c2 = 3 \<and> r9 c2 = 4"
    by (simp add: arg_registers_def less_cases)
  moreover from stk have "map (\<lambda>j. mem c2 (rsp c2 + 1 + 4 + j)) [0, 1, 2, 3] = [5, 6, 7, 8]"
    by (simp add: less_cases)
  moreover from obs have "map (observed_arg Cygwin c2) [0, 1, 2, 3, 4, 5, 6, 7] = ?args"
    by (simp add: all_less_8)
  ultimately show ?thesis
    using f by auto
qed

text \<open>
  C3. The coroutine given last to \<^verbatim>\<open>cobegin\<close> is the first to run. The code does not do so
  when a coroutine before it has more than 127 arguments. In the call
  \<^verbatim>\<open>cobegin( 2, A, 200, a1, ..., a200, C, 0 )\<close> with \<open>A = 0xA\<close>, \<open>a1 = 0xB\<close>, \<open>a2 = 0\<close> and
  \<open>C = 0xC\<close>, the \<^verbatim>\<open>int8_t\<close> variable holds -56 for the count 200, no argument of \<open>A\<close> is
  taken off the list, the second turn of the loop reads \<open>a1\<close> and \<open>a2\<close> as a coroutine and its
  count, and the coroutine that is entered first is \<open>a1\<close>, not \<open>C\<close>.
\<close>

theorem cobegin_enters_an_argument:
  "\<exists>k1 c1. cobegin macos_build 2 ([0xA, 200, 0xB, 0] @ replicate 198 7 @ [0xC, 0]) 100
        kernel_init (cpu_at 80 90 mem_addr) = Some (Switches k1 c1)
     \<and> rip (popCoroutine_epilogue macos_build c1) = 0xB
     \<and> rip (popCoroutine_epilogue macos_build c1) \<noteq> 0xC"
  by (simp add: cobegin_def cobegin_loop.simps setBase_def cobegin_entry_def macos_build_def
      kernel_init_def push_def va_arg_def store_arguments_def marked_size_def incr_count_def
      INT_MAX_def CSA_SIZE_def long_of_ptr_def SIZE_MASK_def popCoroutine_def Let_def
      cpu_at_def mem_addr_def popCoroutine_epilogue_def ret_def pop_rbp_def copy_to_stack_def
      word_sless_alt EXTRA_STACK_def)




text \<open>
  C4. The ring is first in, first out. A call of \<^verbatim>\<open>coresume\<close> stores the frame of its caller
  and its size word at the bottom of the CSA, below everything stored, which moves up by the
  size plus one, and takes the image on top off. Over \<open>n\<close> yields, each made by the coroutine
  that the switch before it restored, the images come off the CSA in the order in which they
  went in: first the stored ones from the top down, then the frames of the yields in the
  order of the yields. Every switch puts its image on the stack below \<^verbatim>\<open>base - 2\<close> and
  continues at the return address the image holds, so that with \<open>m\<close> images stored the
  coroutine that yields continues behind its call of \<^verbatim>\<open>coresume\<close> \<open>m\<close> switches later, on the
  stack it had: with two coroutines stored, that is a ring of three, the coroutines run in
  strict rotation.
\<close>

theorem coresume_fifo:
  assumes "1 < coroutineCount k" and "images k = Some q"
    and "\<forall>x \<in> set q. nat (saved_regs (abi b)) + 2 \<le> length (snd x)"
    and "keep_yielding b body n k c = Some (tr, kf, cf)"
    and "\<forall>y \<in> set tr. saved_regs (abi b) + 2 \<le> yielder_size b k (fst y)"
  shows "(\<forall>k' c'. coresume b k c = Some (Switches k' c') \<longrightarrow>
            (\<exists>d. live k' @ popped_image k' @ [d]
               = yielder_frame b k c @ [word_of_int (yielder_size b k c)] @ live k))
     \<and> length tr = n
     \<and> (tr \<noteq> [] \<longrightarrow> fst (hd tr) = c)
     \<and> (\<forall>j. Suc j < n \<longrightarrow> fst (tr ! Suc j) = body (snd (tr ! j)))
     \<and> images kf = Some (drop n (q @ map (saved_entry b k \<circ> fst) tr))
     \<and> (\<forall>j < n. resumes b (base k) (snd (tr ! j)) ((q @ map (saved_entry b k \<circ> fst) tr) ! j))
     \<and> (\<forall>j < n. length q \<le> j
          \<longrightarrow> continues b (base k) (fst (tr ! (j - length q))) (snd (tr ! j)))"
proof -
  note f = keep_yielding_fifo [OF assms(4,1,2,3,5)]
  note ch = keep_yielding_chain [OF assms(4)]
  let ?Q = "q @ map (saved_entry b k \<circ> fst) tr"
  have len: "length tr = n"
    using f by simp
  have "continues b (base k) (fst (tr ! (j - length q))) (snd (tr ! j))"
    if "j < n" "length q \<le> j" for j
  proof -
    let ?y = "tr ! (j - length q)"
    have y: "?y \<in> set tr"
      using that len by simp
    have "?Q ! j = saved_entry b k (fst ?y)"
      using that len by (simp add: nth_append)
    with f that(1) have "resumes b (base k) (snd (tr ! j)) (saved_entry b k (fst ?y))"
      by auto
    moreover have "saved_regs (abi b) + 2 \<le> yielder_size b k (fst ?y)"
      using assms(5) y by blast
    moreover have "yielder_size b k (fst ?y) \<le> int CSA_SIZE"
      using f y by blast
    ultimately show ?thesis
      by (rule resumes_saved)
  qed
  with f ch len coresume_csa [OF assms(1)] show ?thesis
    by simp
qed


theorem coresume_fifo_witness:
  "\<exists>k1 c1 tr kf cf.
     cobegin macos_build 3 (va_entries [(0xA, []), (0xB, []), (0xC, [])]) 100 kernel_init
       (cpu_at 80 90 mem_addr) = Some (Switches k1 c1)
   \<and> rip (popCoroutine_epilogue macos_build c1) = 0xC
   \<and> keep_yielding macos_build yield_again 4 k1
        (yield_again (popCoroutine_epilogue macos_build c1)) = Some (tr, kf, cf)
   \<and> map (rip \<circ> snd) tr = [0xB, 0xA, 0x10C, 0x10B]
   \<and> continues macos_build 100 (fst (tr ! 0)) (snd (tr ! 2))
   \<and> continues macos_build 100 (fst (tr ! 1)) (snd (tr ! 3))"
proof -
  let ?b = macos_build
  let ?A = "entry_image ?b 100 (0xA, [])"
  let ?B = "entry_image ?b 100 (0xB, [])"
  let ?C = "entry_image ?b 100 (0xC, [])"
  have sr: "saved_regs (abi ?b) = 1"
    by (simp add: macos_build_def)
  have "csavail kernel_init = 0" and "coroutineCount kernel_init = 0"
    and "\<forall>(e, args) \<in> set [(0xA :: long, [] :: long list), (0xB, [])]. length args \<le> 127"
    and "length ([] :: long list) \<le> 127"
    and "total_words ?b ([(0xA, []), (0xB, [])] @ [(0xC, [])]) \<le> CSA_SIZE"
    by (simp_all add: kernel_init_def total_words_def image_words_def macos_build_def
        filler_words_def CSA_SIZE_def)
  from cobegin_resumes [OF this, of 100 "cpu_at 80 90 mem_addr"] obtain k1 c1 where
    co: "cobegin ?b 3 (va_entries [(0xA, []), (0xB, []), (0xC, [])]) 100 kernel_init
        (cpu_at 80 90 mem_addr) = Some (Switches k1 c1)"
    and i: "images k1 = Some [?B, ?A]"
    and r: "resumes ?b 100 (popCoroutine_epilogue ?b c1) ?C"
    and f: "base k1 = 100" "coroutineCount k1 = 3"
    by auto
  let ?x = "popCoroutine_epilogue ?b c1"
  have img: "snd (entry_image ?b 100 (e, [])) = [0, 800, e, 0x100009, FILLER_VALUE, FILLER_VALUE]"
    for e
    by (simp add: entry_image_def virgin_image_def image_header_def macos_build_def
        filler_words_def long_of_ptr_def eval_nat_numeral)
  have x: "rip ?x = 0xC" "rsp ?x = 95"
    using r by (simp_all add: resumes_def entry_image_def sr img [unfolded entry_image_def, simplified])
  have rs: "restorable (entry_image ?b 100 (e, []))" for e
    using restorable_virgin [of 0 "[]" ?b 100 e]
    by (simp add: entry_image_def length_virgin_image_words image_words_def macos_build_def
        filler_words_def)
  have w6: "\<forall>i \<in> set [?B, ?A]. length (snd i) = 6 \<and> restorable i"
    by (simp add: img rs)
  from yield_again_run [OF f(2) i _ w6 f(1) x(2), of 4] obtain tr kf cf where
    run: "keep_yielding ?b yield_again 4 k1 (yield_again ?x) = Some (tr, kf, cf)"
    and inv: "\<forall>y \<in> set tr. rbp (fst y) = 93 \<and> rsp (snd y) = 95"
    by auto
  have c1: "1 < coroutineCount k1"
    by (simp add: f)
  have w: "\<forall>i \<in> set [?B, ?A]. nat (saved_regs (abi ?b)) + 2 \<le> length (snd i)"
    by (simp add: img sr)
  have fr: "\<forall>y \<in> set tr. saved_regs (abi ?b) + 2 \<le> yielder_size ?b k1 (fst y)"
    using inv by (simp add: sr yielder_size_def yielder_BPX_def macos_build_def f)
  note T = coresume_fifo [OF c1 i w run fr]
  from T have len: "length tr = 4"
    by simp
  then obtain t0 t1 t2 t3 where tr: "tr = [t0, t1, t2, t3]"
    by (auto simp: length_Suc_conv eval_nat_numeral)
  note first = T [THEN conjunct2, THEN conjunct2, THEN conjunct1, rule_format]
  note chain = T [THEN conjunct2, THEN conjunct2, THEN conjunct2, THEN conjunct1, rule_format]
  note resumed = T [THEN conjunct2, THEN conjunct2, THEN conjunct2, THEN conjunct2,
      THEN conjunct2, THEN conjunct1, rule_format]
  note continued = T [THEN conjunct2, THEN conjunct2, THEN conjunct2, THEN conjunct2,
      THEN conjunct2, THEN conjunct2, rule_format]
  have h0: "fst t0 = yield_again ?x"
    using first by (simp add: tr)
  have h1: "fst t1 = yield_again (snd t0)"
    using chain [of 0] by (simp add: tr)
  have r0: "resumes ?b 100 (snd t0) ?B"
    using resumed [of 0] by (simp add: tr f)
  have r1: "resumes ?b 100 (snd t1) ?A"
    using resumed [of 1] by (simp add: tr f)
  have c2: "continues ?b 100 (fst t0) (snd t2)"
    using continued [of 2] by (simp add: tr f)
  have c3: "continues ?b 100 (fst t1) (snd t3)"
    using continued [of 3] by (simp add: tr f)
  have "rip (snd t0) = 0xB" "rip (snd t1) = 0xA"
    using r0 r1 by (simp_all add: resumes_def entry_image_def sr img [unfolded entry_image_def, simplified])
  moreover have "rip (snd t2) = 0x10C"
    using c2 yield_again_frame [OF x(2) f(1)] x(1)
    by (simp add: continues_def h0 yielder_BPX_def macos_build_def)
  moreover have "rsp (snd t0) = 95"
    using inv by (simp add: tr)
  then have "rip (snd t3) = 0x10B"
    using c3 yield_again_frame [OF _ f(1), of "snd t0"] \<open>rip (snd t0) = 0xB\<close>
    by (simp add: continues_def h1 yielder_BPX_def macos_build_def)
  ultimately have "map (rip \<circ> snd) tr = [0xB, 0xA, 0x10C, 0x10B]"
    by (simp add: tr)
  with co x(1) run c2 c3 show ?thesis
    by (auto simp: tr)
qed

end
